theory Spec2Isabelle
  imports Main "HOL-Library.Word"
begin

unbundle bit_operations_syntax

section \<open>Values of the program\<close>

text \<open>
  The library works on JavaScript \<^verbatim>\<open>bigint\<close> values (unbounded integers, modelled as
  \<^typ>\<open>int\<close>), on \<^verbatim>\<open>Uint8Array\<close> values (lists of 8-bit words) and on strings. A string
  of the model is a list of 8-bit characters, so the strings covered are those whose code
  units are below 256. Every \<^verbatim>\<open>throw\<close> of the source is a value \<open>Inl e\<close> of the result.
\<close>

datatype err = Error string | TypeError string | SyntaxError string | RangeError string

type_synonym byte = "8 word"

definition bindE :: "err + 'a \<Rightarrow> ('a \<Rightarrow> err + 'b) \<Rightarrow> err + 'b" where
  "bindE m f = (case m of Inl e \<Rightarrow> Inl e | Inr v \<Rightarrow> f v)"

text \<open>\<^verbatim>\<open>a / b\<close> and \<^verbatim>\<open>a % b\<close> on bigints truncate towards zero.\<close>

definition bigint_div :: "int \<Rightarrow> int \<Rightarrow> int" where
  "bigint_div a b = sgn a * sgn b * (\<bar>a\<bar> div \<bar>b\<bar>)"

definition bigint_rem :: "int \<Rightarrow> int \<Rightarrow> int" where
  "bigint_rem a b = sgn a * (\<bar>a\<bar> mod \<bar>b\<bar>)"

text \<open>\<^verbatim>\<open>pow(a, b)\<close>: multiplies \<open>b\<close> times; a loop that does not run leaves 1.\<close>

fun pow_loop :: "nat \<Rightarrow> int \<Rightarrow> int \<Rightarrow> int" where
  "pow_loop 0 a result = result"
| "pow_loop (Suc i) a result = pow_loop i a (result * a)"

definition pow :: "int \<Rightarrow> int \<Rightarrow> int" where
  "pow a b = pow_loop (nat b) a 1"

subsection \<open>Curve parameters\<close>

definition POW_2_256 :: int where
  "POW_2_256 = pow 2 256"

definition CURVE_P :: int where
  "CURVE_P = POW_2_256 - pow 2 32 - 977"

definition CURVE_n :: int where
  "CURVE_n = POW_2_256 - 432420386565659656852420866394968145599"

definition CURVE_Gx :: int where
  "CURVE_Gx = 55066263022277343669578718895168534326250603453777594175500187360389116729240"

definition CURVE_Gy :: int where
  "CURVE_Gy = 32670510020758816978083085130507043184471273380659243275938904335757337482424"

definition CURVE_beta :: int where
  "CURVE_beta = 0x7ae96a2b657c07106e64479eac3434e99cf0497512f58995c1396c28719501ee"

definition CURVE_a :: int where
  "CURVE_a = 0"

definition CURVE_b :: int where
  "CURVE_b = 7"

definition POW_2_128 :: int where
  "POW_2_128 = pow 2 128"

subsection \<open>Hexadecimal strings and bytes\<close>

text \<open>\<^verbatim>\<open>num.toString(16)\<close> of an integer: lower-case digits, a minus sign when negative.\<close>

definition hexDigitChar :: "nat \<Rightarrow> char" where
  "hexDigitChar d = ''0123456789abcdef'' ! d"

fun toString16_nat :: "nat \<Rightarrow> string" where
  "toString16_nat k =
     (if k < 16 then [hexDigitChar k]
      else toString16_nat (k div 16) @ [hexDigitChar (k mod 16)])"

declare toString16_nat.simps [simp del]

definition toString16 :: "int \<Rightarrow> string" where
  "toString16 i = (if i < 0 then CHR ''-'' # toString16_nat (nat (- i)) else toString16_nat (nat i))"

definition padStart :: "nat \<Rightarrow> char \<Rightarrow> string \<Rightarrow> string" where
  "padStart k c s = replicate (k - length s) c @ s"

text \<open>The value of a hexadecimal digit of either case, and of a string of digits.\<close>

definition hexDigitVal :: "char \<Rightarrow> nat option" where
  "hexDigitVal c =
     (let k = (of_char c :: nat) in
      if 48 \<le> k \<and> k \<le> 57 then Some (k - 48)
      else if 97 \<le> k \<and> k \<le> 102 then Some (k - 87)
      else if 65 \<le> k \<and> k \<le> 70 then Some (k - 55)
      else None)"

definition isHexDigit :: "char \<Rightarrow> bool" where
  "isHexDigit c = (hexDigitVal c \<noteq> None)"

definition hexValue :: "string \<Rightarrow> nat" where
  "hexValue s = foldl (\<lambda>acc c. 16 * acc + the (hexDigitVal c)) 0 s"

text \<open>White space of the language among the code units below 256:
  TAB, LF, VT, FF, CR, SP and NBSP.\<close>

definition isWhiteSpace :: "char \<Rightarrow> bool" where
  "isWhiteSpace c = ((of_char c :: nat) \<in> set [9, 10, 11, 12, 13, 32, 160])"

text \<open>
  \<^verbatim>\<open>Number.parseInt(s, 16)\<close>: leading white space is skipped, one sign is read, a prefix
  \<^verbatim>\<open>0x\<close> or \<^verbatim>\<open>0X\<close> is dropped, and the longest run of hexadecimal digits that follows is
  the number; what comes after that run is ignored. \<open>None\<close> is \<^verbatim>\<open>NaN\<close> (no digit at all).
\<close>

definition parseInt16 :: "string \<Rightarrow> int option" where
  "parseInt16 str =
     (let s1 = dropWhile isWhiteSpace str;
          sign = (if s1 \<noteq> [] \<and> hd s1 = CHR ''-'' then - 1 else 1 :: int);
          s2 = (if s1 \<noteq> [] \<and> (hd s1 = CHR ''+'' \<or> hd s1 = CHR ''-'') then tl s1 else s1);
          s3 = (if 2 \<le> length s2 \<and> (take 2 s2 = ''0x'' \<or> take 2 s2 = ''0X'') then drop 2 s2 else s2);
          z = takeWhile isHexDigit s3
      in if z = [] then None else Some (sign * int (hexValue z)))"

text \<open>
  \<^verbatim>\<open>BigInt('0x' + hex)\<close>: the text after the prefix must be one or more hexadecimal digits,
  optionally followed by white space; anything else is a \<^verbatim>\<open>SyntaxError\<close>.
\<close>

definition hexToNumber :: "string \<Rightarrow> err + int" where
  "hexToNumber hex =
     (let body = rev (dropWhile isWhiteSpace (rev hex))
      in if body \<noteq> [] \<and> list_all isHexDigit body then Inr (int (hexValue body))
         else Inl (SyntaxError ''Cannot convert to a BigInt''))"

definition hexes :: "string list" where
  "hexes = map (\<lambda>i. padStart 2 (CHR ''0'') (toString16 (int i))) [0..<256]"

definition bytesToHex :: "byte list \<Rightarrow> string" where
  "bytesToHex uint8a = concat (map (\<lambda>b. hexes ! unat b) uint8a)"

definition numTo32bStr :: "int \<Rightarrow> err + string" where
  "numTo32bStr num =
     (if num > POW_2_256 then Inl (Error ''Expected number < 2^256'')
      else Inr (padStart 64 (CHR ''0'') (toString16 num)))"

definition numberToHex :: "int \<Rightarrow> string" where
  "numberToHex num = (let hex = toString16 num in if odd (length hex) then CHR ''0'' # hex else hex)"

text \<open>\<^verbatim>\<open>hexToBytes\<close>: the loop reads two characters at a time and stops at the first
  pair that \<^verbatim>\<open>parseInt\<close> turns into \<^verbatim>\<open>NaN\<close> or a negative number.\<close>

fun hexToBytes_loop :: "string \<Rightarrow> err + byte list" where
  "hexToBytes_loop (c1 # c2 # rest) =
     (case parseInt16 [c1, c2] of
        None \<Rightarrow> Inl (Error ''Invalid byte sequence'')
      | Some b \<Rightarrow>
          if b < 0 then Inl (Error ''Invalid byte sequence'')
          else bindE (hexToBytes_loop rest) (\<lambda>bs. Inr (word_of_int b # bs)))"
| "hexToBytes_loop _ = Inr []"

definition hexToBytes :: "string \<Rightarrow> err + byte list" where
  "hexToBytes hex =
     (if length hex mod 2 \<noteq> 0 then Inl (Error ''hexToBytes: received invalid unpadded hex'')
      else hexToBytes_loop hex)"

definition numTo32b :: "int \<Rightarrow> err + byte list" where
  "numTo32b num = bindE (numTo32bStr num) hexToBytes"

definition bytesToNumber :: "byte list \<Rightarrow> err + int" where
  "bytesToNumber bytes = hexToNumber (bytesToHex bytes)"

text \<open>The number that a byte sequence denotes, most significant byte first; the statements
  below say what \<open>bytesToNumber\<close> returns in its terms.\<close>

definition bigEndian :: "byte list \<Rightarrow> int" where
  "bigEndian bytes = foldl (\<lambda>acc b. 256 * acc + uint b) 0 bytes"

text \<open>\<^verbatim>\<open>type Hex = Uint8Array | string\<close>\<close>

datatype Hex = HexBytes "byte list" | HexStr string

fun ensureBytes :: "Hex \<Rightarrow> err + byte list" where
  "ensureBytes (HexBytes b) = Inr b"
| "ensureBytes (HexStr s) = hexToBytes s"

section \<open>Field and scalar arithmetic\<close>

text \<open>\<^verbatim>\<open>mod(a, b)\<close>: the remainder of the language, moved into \<open>[0, b)\<close> when negative.
  Every caller passes a positive \<open>b\<close>, except \<^verbatim>\<open>invertBatch\<close>, which is given its modulus.\<close>

definition mod_js :: "int \<Rightarrow> int \<Rightarrow> int" where
  "mod_js a b = (let result = bigint_rem a b in if result \<ge> 0 then result else b + result)"

text \<open>\<^verbatim>\<open>weistrass(x)\<close>: the right-hand side of the curve equation.\<close>

definition weistrass :: "int \<Rightarrow> int" where
  "weistrass x =
     (let x2 = mod_js (x * x) CURVE_P;
          x3 = mod_js (x2 * x) CURVE_P
      in mod_js (x3 + CURVE_a * x + CURVE_b) CURVE_P)"

text \<open>\<^verbatim>\<open>pow2(x, power)\<close>: as many squarings as \<^verbatim>\<open>power\<close> says, each reduced with \<^verbatim>\<open>%\<close>.\<close>

fun pow2_loop :: "nat \<Rightarrow> int \<Rightarrow> int" where
  "pow2_loop 0 res = res"
| "pow2_loop (Suc k) res = pow2_loop k (bigint_rem (res * res) CURVE_P)"

definition pow2 :: "int \<Rightarrow> int \<Rightarrow> int" where
  "pow2 x pwr = pow2_loop (nat pwr) x"

definition sqrtMod :: "int \<Rightarrow> int" where
  "sqrtMod x =
     (let b2 = bigint_rem (x * x * x) CURVE_P;
          b3 = bigint_rem (b2 * b2 * x) CURVE_P;
          b6 = bigint_rem (pow2 b3 3 * b3) CURVE_P;
          b9 = bigint_rem (pow2 b6 3 * b3) CURVE_P;
          b11 = bigint_rem (pow2 b9 2 * b2) CURVE_P;
          b22 = bigint_rem (pow2 b11 11 * b11) CURVE_P;
          b44 = bigint_rem (pow2 b22 22 * b22) CURVE_P;
          b88 = bigint_rem (pow2 b44 44 * b44) CURVE_P;
          b176 = bigint_rem (pow2 b88 88 * b88) CURVE_P;
          b220 = bigint_rem (pow2 b176 44 * b44) CURVE_P;
          b223 = bigint_rem (pow2 b220 3 * b3) CURVE_P;
          t1 = bigint_rem (pow2 b223 23 * b22) CURVE_P;
          t2 = bigint_rem (pow2 t1 6 * b2) CURVE_P
      in pow2 t2 2)"

text \<open>\<^verbatim>\<open>invert(number, modulo)\<close>: the extended Euclidean loop on \<open>(a, b, x, y, u, v)\<close>;
  it leaves the greatest common divisor in \<open>b\<close> and the candidate inverse in \<open>x\<close>.\<close>

function invert_loop :: "int \<Rightarrow> int \<Rightarrow> int \<Rightarrow> int \<Rightarrow> int \<Rightarrow> int \<Rightarrow> int \<times> int" where
  "invert_loop a b x y u v =
     (if a = 0 then (b, x)
      else let q = bigint_div b a;
               r = bigint_rem b a;
               m = x - u * q;
               n = y - v * q
           in invert_loop r a u v m n)"
  by pat_completeness auto
termination
proof (relation "measure (\<lambda>(a, b, x, y, u, v). nat \<bar>a\<bar>)")
  show "wf (measure (\<lambda>(a, b, x, y, u, v). nat \<bar>a\<bar>))"
    by simp
next
  fix a b x y u v :: int and xa xb xc xd :: int
  assume "a \<noteq> 0" and "xb = bigint_rem b a"
  then have "\<bar>xb\<bar> < \<bar>a\<bar>"
    by (simp add: bigint_rem_def abs_mult abs_sgn_eq)
  then show "((xb, a, u, v, xc, xd), a, b, x, y, u, v) \<in> measure (\<lambda>(a, b, x, y, u, v). nat \<bar>a\<bar>)"
    by simp
qed

declare invert_loop.simps [simp del]

definition invert :: "int \<Rightarrow> int \<Rightarrow> err + int" where
  "invert number md =
     (if number = 0 \<or> md \<le> 0 then Inl (Error ''invert: expected positive integers'')
      else let (g, x) = invert_loop (mod_js number md) md 0 1 1 0
           in if g \<noteq> 1 then Inl (Error ''invert: does not exist'')
              else Inr (mod_js x md))"

text \<open>
  \<^verbatim>\<open>invertBatch(nums, n)\<close>. The first loop fills \<^verbatim>\<open>scratch\<close> (a hole where the number
  is zero) and multiplies the nonzero numbers into \<^verbatim>\<open>acc\<close>; its \<^verbatim>\<open>%\<close> raises a
  \<^verbatim>\<open>RangeError\<close> when the modulus is zero. Then \<^verbatim>\<open>invert\<close> is called, and the second
  loop runs from the last index down. The second component of \<open>invertBatch_counted\<close>
  counts the calls of \<^verbatim>\<open>invert\<close>.
\<close>

fun invertBatch_scan :: "int list \<Rightarrow> int \<Rightarrow> int \<Rightarrow> err + (int option list \<times> int)" where
  "invertBatch_scan [] n acc = Inr ([], acc)"
| "invertBatch_scan (x # xs) n acc =
     (if x = 0 then bindE (invertBatch_scan xs n acc) (\<lambda>(scratch, a). Inr (None # scratch, a))
      else if n = 0 then Inl (RangeError ''Division by zero'')
      else bindE (invertBatch_scan xs n (mod_js (acc * x) n))
             (\<lambda>(scratch, a). Inr (Some acc # scratch, a)))"

fun invertBatch_unwind :: "int list \<Rightarrow> int option list \<Rightarrow> int \<Rightarrow> int \<Rightarrow> int list \<times> int" where
  "invertBatch_unwind (x # xs) (s # scratch) n acc =
     (let (ys, a) = invertBatch_unwind xs scratch n acc
      in if x = 0 then (x # ys, a)
         else (mod_js (a * the s) n # ys, mod_js (a * x) n))"
| "invertBatch_unwind _ _ n acc = ([], acc)"

definition invertBatch_counted :: "int list \<Rightarrow> int \<Rightarrow> (err + int list) \<times> nat" where
  "invertBatch_counted nums n =
     (case invertBatch_scan nums n 1 of
        Inl e \<Rightarrow> (Inl e, 0)
      | Inr (scratch, acc) \<Rightarrow>
          (case invert acc n of
             Inl e \<Rightarrow> (Inl e, 1)
           | Inr inverted \<Rightarrow> (Inr (fst (invertBatch_unwind nums scratch n inverted)), 1)))"

definition invertBatch :: "int list \<Rightarrow> int \<Rightarrow> err + int list" where
  "invertBatch nums n = fst (invertBatch_counted nums n)"

definition divNearest :: "int \<Rightarrow> int \<Rightarrow> int" where
  "divNearest a b = bigint_div (a + bigint_div b 2) b"

record SplitScalar =
  k1neg :: bool
  k1 :: int
  k2neg :: bool
  k2 :: int

definition splitScalarEndo :: "int \<Rightarrow> err + SplitScalar" where
  "splitScalarEndo k =
     (let n = CURVE_n;
          a1 = 0x3086d221a7d46bcde86c90e49284eb15;
          b1 = - 1 * 0xe4437ed6010e88286f547fa90abfe4c3;
          a2 = 0x114ca50f7a8e2f3f657c1108d9d44cfd8;
          b2 = a1;
          c1 = divNearest (b2 * k) n;
          c2 = divNearest (- b1 * k) n;
          k1 = mod_js (k - c1 * a1 - c2 * a2) n;
          k2 = mod_js (- c1 * b1 - c2 * b2) n;
          k1neg = (k1 > POW_2_128);
          k2neg = (k2 > POW_2_128);
          k1 = (if k1neg then n - k1 else k1);
          k2 = (if k2neg then n - k2 else k2)
      in if k1 > POW_2_128 \<or> k2 > POW_2_128 then Inl (Error ''splitScalarEndo: Endomorphism failed'')
         else Inr \<lparr>k1neg = k1neg, k1 = k1, k2neg = k2neg, k2 = k2\<rparr>)"

definition isWithinCurveOrder :: "int \<Rightarrow> bool" where
  "isWithinCurveOrder num = (0 < num \<and> num < CURVE_n)"

definition isValidFieldElement :: "int \<Rightarrow> bool" where
  "isValidFieldElement num = (0 < num \<and> num < CURVE_P)"

text \<open>\<^verbatim>\<open>normalizeScalar\<close> on a bigint (the scalars of the model are bigints).\<close>

definition normalizeScalar :: "int \<Rightarrow> err + int" where
  "normalizeScalar num =
     (if isWithinCurveOrder num then Inr num
      else Inl (TypeError ''Expected valid private scalar: 0 < scalar < curve.n''))"

text \<open>\<^verbatim>\<open>truncateHash\<close>: the shift only happens for hashes longer than 32 bytes.\<close>

definition truncateHash :: "byte list \<Rightarrow> err + int" where
  "truncateHash hash =
     (let n = CURVE_n;
          byteLength = int (length hash);
          delta = byteLength * 8 - 256
      in bindE (bytesToNumber hash) (\<lambda>h.
           let h = (if delta > 0 then drop_bit (nat delta) h else h);
               h = (if h \<ge> n then h - n else h)
           in Inr h))"

section \<open>Points\<close>

abbreviation modP :: "int \<Rightarrow> int" where
  "modP a \<equiv> mod_js a CURVE_P"

definition USE_ENDOMORPHISM :: bool where
  "USE_ENDOMORPHISM = (CURVE_a = 0)"

record JacobianPoint =
  jx :: int
  jy :: int
  jz :: int

text \<open>An affine point carries its window size, which \<^verbatim>\<open>_setWindowSize\<close> sets; a point made
  by \<^verbatim>\<open>new Point(x, y)\<close> has none.\<close>

record Point =
  px :: int
  py :: int
  WINDOW_SIZE :: "nat option"

definition new_Point :: "int \<Rightarrow> int \<Rightarrow> Point" where
  "new_Point x y = \<lparr>px = x, py = y, WINDOW_SIZE = None\<rparr>"

text \<open>\<^verbatim>\<open>Point.BASE\<close>, after the module has run \<^verbatim>\<open>Point.BASE._setWindowSize(8)\<close>.\<close>

definition Point_BASE :: Point where
  "Point_BASE = \<lparr>px = CURVE_Gx, py = CURVE_Gy, WINDOW_SIZE = Some 8\<rparr>"

definition Point_ZERO :: Point where
  "Point_ZERO = new_Point 0 0"

definition JacobianPoint_BASE :: JacobianPoint where
  "JacobianPoint_BASE = \<lparr>jx = CURVE_Gx, jy = CURVE_Gy, jz = 1\<rparr>"

definition JacobianPoint_ZERO :: JacobianPoint where
  "JacobianPoint_ZERO = \<lparr>jx = 0, jy = 1, jz = 0\<rparr>"

definition fromAffine :: "Point \<Rightarrow> JacobianPoint" where
  "fromAffine p = \<lparr>jx = px p, jy = py p, jz = 1\<rparr>"

definition JacobianPoint_equals :: "JacobianPoint \<Rightarrow> JacobianPoint \<Rightarrow> bool" where
  "JacobianPoint_equals a b =
     (let az2 = modP (jz a * jz a);
          az3 = modP (jz a * az2);
          bz2 = modP (jz b * jz b);
          bz3 = modP (jz b * bz2)
      in modP (jx a * bz2) = modP (az2 * jx b) \<and> modP (jy a * bz3) = modP (az3 * jy b))"

definition JacobianPoint_negate :: "JacobianPoint \<Rightarrow> JacobianPoint" where
  "JacobianPoint_negate p = \<lparr>jx = jx p, jy = modP (- jy p), jz = jz p\<rparr>"

definition JacobianPoint_double :: "JacobianPoint \<Rightarrow> JacobianPoint" where
  "JacobianPoint_double p =
     (let X1 = jx p; Y1 = jy p; Z1 = jz p;
          A = modP (pow X1 2);
          B = modP (pow Y1 2);
          C = modP (pow B 2);
          D = modP (2 * (modP (modP (pow (X1 + B) 2)) - A - C));
          E = modP (3 * A);
          F = modP (pow E 2);
          X3 = modP (F - 2 * D);
          Y3 = modP (E * (D - X3) - 8 * C);
          Z3 = modP (2 * Y1 * Z1)
      in \<lparr>jx = X3, jy = Y3, jz = Z3\<rparr>)"

definition JacobianPoint_add :: "JacobianPoint \<Rightarrow> JacobianPoint \<Rightarrow> JacobianPoint" where
  "JacobianPoint_add p other =
     (let X1 = jx p; Y1 = jy p; Z1 = jz p;
          X2 = jx other; Y2 = jy other; Z2 = jz other
      in if X2 = 0 \<or> Y2 = 0 then p
         else if X1 = 0 \<or> Y1 = 0 then other
         else
           let Z1Z1 = modP (pow Z1 2);
               Z2Z2 = modP (pow Z2 2);
               U1 = modP (X1 * Z2Z2);
               U2 = modP (X2 * Z1Z1);
               S1 = modP (Y1 * Z2 * Z2Z2);
               S2 = modP (modP (Y2 * Z1) * Z1Z1);
               H = modP (U2 - U1);
               r = modP (S2 - S1)
           in if H = 0 then (if r = 0 then JacobianPoint_double p else JacobianPoint_ZERO)
              else
                let HH = modP (pow H 2);
                    HHH = modP (H * HH);
                    V = modP (U1 * HH);
                    X3 = modP (pow r 2 - HHH - 2 * V);
                    Y3 = modP (r * (V - X3) - S1 * HHH);
                    Z3 = modP (Z1 * Z2 * H)
                in \<lparr>jx = X3, jy = Y3, jz = Z3\<rparr>)"

definition JacobianPoint_subtract :: "JacobianPoint \<Rightarrow> JacobianPoint \<Rightarrow> JacobianPoint" where
  "JacobianPoint_subtract p other = JacobianPoint_add p (JacobianPoint_negate other)"

text \<open>\<^verbatim>\<open>toAffine(invZ = invert(this.z))\<close>: \<open>toAffine_with\<close> is the body with the inverse given,
  \<open>toAffine\<close> the call without argument, which inverts \<open>z\<close> first.\<close>

definition toAffine_with :: "JacobianPoint \<Rightarrow> int \<Rightarrow> Point" where
  "toAffine_with p invZ =
     (let invZ2 = pow invZ 2;
          x = modP (jx p * invZ2);
          y = modP (jy p * invZ2 * invZ)
      in new_Point x y)"

definition toAffine :: "JacobianPoint \<Rightarrow> err + Point" where
  "toAffine p = bindE (invert (jz p) CURVE_P) (\<lambda>invZ. Inr (toAffine_with p invZ))"

definition toAffineBatch :: "JacobianPoint list \<Rightarrow> err + Point list" where
  "toAffineBatch points =
     bindE (invertBatch (map jz points) CURVE_P)
       (\<lambda>toInv. Inr (map (\<lambda>(p, i). toAffine_with p i) (zip points toInv)))"

definition normalizeZ :: "JacobianPoint list \<Rightarrow> err + JacobianPoint list" where
  "normalizeZ points = bindE (toAffineBatch points) (\<lambda>ps. Inr (map fromAffine ps))"

text \<open>\<^verbatim>\<open>multiplyUnsafe\<close>: double-and-add, on the whole scalar without the endomorphism and
  on both halves of the split scalar with it.\<close>

function multiplyUnsafe_plain :: "int \<Rightarrow> JacobianPoint \<Rightarrow> JacobianPoint \<Rightarrow> JacobianPoint" where
  "multiplyUnsafe_plain n p d =
     (if n > 0 then
        multiplyUnsafe_plain (drop_bit 1 n)
          (if n AND 1 \<noteq> 0 then JacobianPoint_add p d else p) (JacobianPoint_double d)
      else p)"
  by pat_completeness auto
termination
  by (relation "measure (\<lambda>(n, p, d). nat n)") (auto simp: drop_bit_eq_div)

declare multiplyUnsafe_plain.simps [simp del]

function multiplyUnsafe_loop ::
  "int \<Rightarrow> int \<Rightarrow> JacobianPoint \<Rightarrow> JacobianPoint \<Rightarrow> JacobianPoint \<Rightarrow> JacobianPoint \<times> JacobianPoint" where
  "multiplyUnsafe_loop ka kb d k1p k2p =
     (if ka > 0 \<or> kb > 0 then
        multiplyUnsafe_loop (drop_bit 1 ka) (drop_bit 1 kb) (JacobianPoint_double d)
          (if ka AND 1 \<noteq> 0 then JacobianPoint_add k1p d else k1p)
          (if kb AND 1 \<noteq> 0 then JacobianPoint_add k2p d else k2p)
      else (k1p, k2p))"
  by pat_completeness auto
termination
  by (relation "measure (\<lambda>(ka, kb, d, k1p, k2p). nat ka + nat kb)") (auto simp: drop_bit_eq_div)

declare multiplyUnsafe_loop.simps [simp del]

definition multiplyUnsafe :: "JacobianPoint \<Rightarrow> int \<Rightarrow> err + JacobianPoint" where
  "multiplyUnsafe this scalar =
     bindE (normalizeScalar scalar) (\<lambda>n.
       if \<not> USE_ENDOMORPHISM then Inr (multiplyUnsafe_plain n JacobianPoint_ZERO this)
       else bindE (splitScalarEndo n) (\<lambda>sp.
         let (k1p, k2p) = multiplyUnsafe_loop (k1 sp) (k2 sp) this JacobianPoint_ZERO JacobianPoint_ZERO;
             k1p = (if k1neg sp then JacobianPoint_negate k1p else k1p);
             k2p = (if k2neg sp then JacobianPoint_negate k2p else k2p);
             k2p = \<lparr>jx = modP (jx k2p * CURVE_beta), jy = jy k2p, jz = jz k2p\<rparr>
         in Inr (JacobianPoint_add k1p k2p)))"

subsection \<open>Windowed multiplication\<close>

text \<open>
  The number of windows is \<^verbatim>\<open>128 / W + 1\<close> (or \<^verbatim>\<open>256 / W + 1\<close>), a Number that the loops
  compare their counter with; \<open>windows\<close> is the number of rounds this gives. The window
  sizes are those for which the Number arithmetic of the source is exact (\<open>W \<le> 32\<close>); the
  module sets 8 for the base point and every other point has 1.
\<close>

definition windows :: "nat \<Rightarrow> nat" where
  "windows W =
     (let bits = (if USE_ENDOMORPHISM then 128 else 256 :: nat)
      in if bits mod W = 0 then bits div W + 1 else bits div W + 2)"

fun precomputeWindow_inner ::
  "nat \<Rightarrow> JacobianPoint \<Rightarrow> JacobianPoint \<Rightarrow> JacobianPoint list \<times> JacobianPoint" where
  "precomputeWindow_inner 0 p base = ([], base)"
| "precomputeWindow_inner (Suc i) p base =
     (let base = JacobianPoint_add base p;
          (points, final) = precomputeWindow_inner i p base
      in (base # points, final))"

fun precomputeWindow_outer :: "nat \<Rightarrow> nat \<Rightarrow> JacobianPoint \<Rightarrow> JacobianPoint list" where
  "precomputeWindow_outer 0 W p = []"
| "precomputeWindow_outer (Suc w) W p =
     (let (points, base) = precomputeWindow_inner (2 ^ (W - 1) - 1) p p
      in p # points @ precomputeWindow_outer w W (JacobianPoint_double base))"

definition precomputeWindow :: "JacobianPoint \<Rightarrow> nat \<Rightarrow> JacobianPoint list" where
  "precomputeWindow this W = precomputeWindow_outer (windows W) W this"

text \<open>Reading \<^verbatim>\<open>precomputes[i]\<close>: past the end the value is \<^verbatim>\<open>undefined\<close>, and using it as
  a point raises a \<^verbatim>\<open>TypeError\<close>.\<close>

definition precomputes_at :: "JacobianPoint list \<Rightarrow> nat \<Rightarrow> err + JacobianPoint" where
  "precomputes_at precomputes i =
     (if i < length precomputes then Inr (precomputes ! i)
      else Inl (TypeError ''JacobianPoint#add: expected JacobianPoint''))"

fun wNAF_loop ::
  "nat \<Rightarrow> nat \<Rightarrow> nat \<Rightarrow> JacobianPoint list \<Rightarrow> int \<Rightarrow> JacobianPoint \<Rightarrow> JacobianPoint
     \<Rightarrow> err + (JacobianPoint \<times> JacobianPoint)" where
  "wNAF_loop 0 window W precomputes n p f = Inr (p, f)"
| "wNAF_loop (Suc rounds) window W precomputes n p f =
     (let windowSize = (2 :: int) ^ (W - 1);
          mask = (2 :: int) ^ W - 1;
          maxNumber = (2 :: int) ^ W;
          offset = window * 2 ^ (W - 1);
          wbits = n AND mask;
          n = drop_bit W n;
          (wbits, n) = (if wbits > windowSize then (wbits - maxNumber, n + 1) else (wbits, n))
      in if wbits = 0 then
           bindE (precomputes_at precomputes offset) (\<lambda>pr.
             let pr = (if odd window then JacobianPoint_negate pr else pr)
             in wNAF_loop rounds (Suc window) W precomputes n p (JacobianPoint_add f pr))
         else
           bindE (precomputes_at precomputes (offset + nat \<bar>wbits\<bar> - 1)) (\<lambda>cached.
             let cached = (if wbits < 0 then JacobianPoint_negate cached else cached)
             in wNAF_loop rounds (Suc window) W precomputes n (JacobianPoint_add p cached) f))"

text \<open>
  \<^verbatim>\<open>wNAF(n, affinePoint)\<close>. The table of a point with a window size other than 1 is kept in
  \<^verbatim>\<open>pointPrecomputes\<close> after its first computation; what is kept is what is computed
  here, so the model computes it at each call.
\<close>

definition wNAF ::
  "JacobianPoint \<Rightarrow> int \<Rightarrow> Point option \<Rightarrow> err + (JacobianPoint \<times> JacobianPoint)" where
  "wNAF this n affinePoint =
     (let affinePoint =
            (if affinePoint = None \<and> JacobianPoint_equals this JacobianPoint_BASE
             then Some Point_BASE else affinePoint);
          W = (case affinePoint of
                 None \<Rightarrow> 1
               | Some ap \<Rightarrow> (case WINDOW_SIZE ap of None \<Rightarrow> 1 | Some w \<Rightarrow> if w = 0 then 1 else w))
      in if 256 mod W \<noteq> 0
         then Inl (Error ''Point#wNAF: Invalid precomputation window, must be power of 2'')
         else
           bindE (let precomputes = precomputeWindow this W
                  in if affinePoint \<noteq> None \<and> W \<noteq> 1 then normalizeZ precomputes
                     else Inr precomputes)
             (\<lambda>precomputes. wNAF_loop (windows W) 0 W precomputes n
                                JacobianPoint_ZERO JacobianPoint_ZERO))"

definition multiply :: "JacobianPoint \<Rightarrow> int \<Rightarrow> Point option \<Rightarrow> err + JacobianPoint" where
  "multiply this scalar affinePoint =
     bindE (normalizeScalar scalar) (\<lambda>n.
       bindE
         (if USE_ENDOMORPHISM then
            bindE (splitScalarEndo n) (\<lambda>sp.
              bindE (wNAF this (k1 sp) affinePoint) (\<lambda>(k1p, f1p).
                bindE (wNAF this (k2 sp) affinePoint) (\<lambda>(k2p, f2p).
                  let k1p = (if k1neg sp then JacobianPoint_negate k1p else k1p);
                      k2p = (if k2neg sp then JacobianPoint_negate k2p else k2p);
                      k2p = \<lparr>jx = modP (jx k2p * CURVE_beta), jy = jy k2p, jz = jz k2p\<rparr>
                  in Inr (JacobianPoint_add k1p k2p, JacobianPoint_add f1p f2p))))
          else wNAF this n affinePoint)
         (\<lambda>(point, fake). bindE (normalizeZ [point, fake]) (\<lambda>ps. Inr (hd ps))))"

subsection \<open>Affine points\<close>

definition assertValidity :: "Point \<Rightarrow> err + unit" where
  "assertValidity p =
     (let x = px p; y = py p
      in if \<not> isValidFieldElement x \<or> \<not> isValidFieldElement y
         then Inl (Error ''Point is not on elliptic curve'')
         else
           let left = modP (y * y);
               right = weistrass x
           in if modP (left - right) \<noteq> 0 then Inl (Error ''Point is not on elliptic curve'')
              else Inr ())"

definition fromCompressedHex :: "byte list \<Rightarrow> err + Point" where
  "fromCompressedHex bytes =
     (let isShort = (length bytes = 32)
      in bindE (bytesToNumber (if isShort then bytes else drop 1 bytes)) (\<lambda>x.
           if \<not> isValidFieldElement x then Inl (Error ''Point is not on curve'')
           else
             let y2 = weistrass x;
                 y = sqrtMod y2;
                 isYOdd = (y AND 1 = 1);
                 y = (if isShort then (if isYOdd then modP (- y) else y)
                      else
                        let isFirstByteOdd = (hd bytes AND 1 = 1)
                        in if isFirstByteOdd \<noteq> isYOdd then modP (- y) else y);
                 point = new_Point x y
             in bindE (assertValidity point) (\<lambda>_. Inr point)))"

definition fromUncompressedHex :: "byte list \<Rightarrow> err + Point" where
  "fromUncompressedHex bytes =
     bindE (bytesToNumber (take 32 (drop 1 bytes))) (\<lambda>x.
       bindE (bytesToNumber (drop 33 bytes)) (\<lambda>y.
         let point = new_Point x y
         in bindE (assertValidity point) (\<lambda>_. Inr point)))"

definition Point_fromHex :: "Hex \<Rightarrow> err + Point" where
  "Point_fromHex hex =
     bindE (ensureBytes hex) (\<lambda>bytes.
       if length bytes = 32 \<or> (length bytes = 33 \<and> (hd bytes = 0x02 \<or> hd bytes = 0x03))
       then fromCompressedHex bytes
       else if length bytes = 65 \<and> hd bytes = 0x04 then fromUncompressedHex bytes
       else Inl (Error ''Point.fromHex: received invalid point''))"

definition Point_equals :: "Point \<Rightarrow> Point \<Rightarrow> bool" where
  "Point_equals p other = (px p = px other \<and> py p = py other)"

definition Point_negate :: "Point \<Rightarrow> Point" where
  "Point_negate p = new_Point (px p) (modP (- py p))"

definition Point_add :: "Point \<Rightarrow> Point \<Rightarrow> err + Point" where
  "Point_add p other = toAffine (JacobianPoint_add (fromAffine p) (fromAffine other))"

definition Point_subtract :: "Point \<Rightarrow> Point \<Rightarrow> err + Point" where
  "Point_subtract p other = Point_add p (Point_negate other)"

definition Point_multiply :: "Point \<Rightarrow> int \<Rightarrow> err + Point" where
  "Point_multiply p scalar = bindE (multiply (fromAffine p) scalar (Some p)) toAffine"

section \<open>ECDSA signatures and their DER form\<close>

record Signature =
  sig_r :: int
  sig_s :: int

text \<open>\<^verbatim>\<open>new Signature(r, s)\<close> runs \<^verbatim>\<open>assertValidity\<close>.\<close>

definition Signature_assertValidity :: "Signature \<Rightarrow> err + unit" where
  "Signature_assertValidity sg =
     (if \<not> isWithinCurveOrder (sig_r sg) then Inl (Error ''Invalid Signature: r must be 0 < r < n'')
      else if \<not> isWithinCurveOrder (sig_s sg) then Inl (Error ''Invalid Signature: s must be 0 < s < n'')
      else Inr ())"

definition new_Signature :: "int \<Rightarrow> int \<Rightarrow> err + Signature" where
  "new_Signature r s =
     (let sg = \<lparr>sig_r = r, sig_s = s\<rparr> in bindE (Signature_assertValidity sg) (\<lambda>_. Inr sg))"

definition sliceDER :: "string \<Rightarrow> string" where
  "sliceDER s =
     (case parseInt16 (take 1 s) of
        None \<Rightarrow> s
      | Some d \<Rightarrow> if d \<ge> 8 then ''00'' @ s else s)"

definition parseDERInt :: "byte list \<Rightarrow> err + (int \<times> byte list)" where
  "parseDERInt data =
     (if length data < 2 \<or> data ! 0 \<noteq> 0x02 then Inl (Error ''Invalid signature integer tag'')
      else
        let len = unat (data ! 1);
            res = take len (drop 2 data)
        in if len = 0 \<or> length res \<noteq> len then Inl (Error ''Invalid signature integer: wrong length'')
           else if res ! 0 = 0x00 \<and> 1 < length res \<and> res ! 1 \<le> 0x7f
             then Inl (Error ''Invalid signature integer: trailing length'')
           else bindE (bytesToNumber res) (\<lambda>d. Inr (d, drop (len + 2) data)))"

definition parseDERSignature :: "byte list \<Rightarrow> err + (int \<times> int)" where
  "parseDERSignature data =
     (if length data < 2 \<or> data ! 0 \<noteq> 0x30 then Inl (Error ''Invalid signature tag'')
      else if unat (data ! 1) \<noteq> length data - 2 then Inl (Error ''Invalid signature: incorrect length'')
      else
        bindE (parseDERInt (drop 2 data)) (\<lambda>(r, sBytes).
          bindE (parseDERInt sBytes) (\<lambda>(s, rBytesLeft).
            if length rBytesLeft \<noteq> 0 then Inl (Error ''Invalid signature: left bytes after parsing'')
            else Inr (r, s))))"

definition Signature_fromCompact :: "Hex \<Rightarrow> err + Signature" where
  "Signature_fromCompact hex =
     (let str = (case hex of HexBytes b \<Rightarrow> bytesToHex b | HexStr t \<Rightarrow> t)
      in if length str \<noteq> 128 then Inl (Error ''Signature.fromCompact: Expected 64-byte hex'')
         else bindE (hexToNumber (take 64 str)) (\<lambda>r.
                bindE (hexToNumber (take 64 (drop 64 str))) (\<lambda>s. new_Signature r s)))"

definition Signature_fromDER :: "Hex \<Rightarrow> err + Signature" where
  "Signature_fromDER hex =
     bindE (case hex of HexBytes b \<Rightarrow> Inr b | HexStr t \<Rightarrow> hexToBytes t) (\<lambda>data.
       bindE (parseDERSignature data) (\<lambda>(r, s). new_Signature r s))"

definition hasHighS :: "Signature \<Rightarrow> bool" where
  "hasHighS sg = (let HALF = drop_bit 1 CURVE_n in sig_s sg > HALF)"

definition normalizeS :: "Signature \<Rightarrow> err + Signature" where
  "normalizeS sg = (if hasHighS sg then new_Signature (sig_r sg) (CURVE_n - sig_s sg) else Inr sg)"

definition toDERHex :: "Signature \<Rightarrow> bool \<Rightarrow> string" where
  "toDERHex sg isCompressed =
     (let sHex = sliceDER (numberToHex (sig_s sg))
      in if isCompressed then sHex
         else
           let rHex = sliceDER (numberToHex (sig_r sg));
               rLen = numberToHex (int (length rHex div 2));
               sLen = numberToHex (int (length sHex div 2));
               len = numberToHex (int (length rHex div 2 + length sHex div 2 + 4))
           in ''30'' @ len @ ''02'' @ rLen @ rHex @ ''02'' @ sLen @ sHex)"

definition toDERRawBytes :: "Signature \<Rightarrow> err + byte list" where
  "toDERRawBytes sg = hexToBytes (toDERHex sg False)"

definition toCompactHex :: "Signature \<Rightarrow> err + string" where
  "toCompactHex sg =
     bindE (numTo32bStr (sig_r sg)) (\<lambda>a. bindE (numTo32bStr (sig_s sg)) (\<lambda>b. Inr (a @ b)))"

text \<open>\<^verbatim>\<open>type Sig = Hex | Signature\<close>, \<^verbatim>\<open>type PubKey = Hex | Point\<close>,
  \<^verbatim>\<open>type PrivKey = Hex | bigint | number\<close> (a number of the model is an integer).\<close>

datatype Sig = SigHex Hex | SigObj Signature

datatype PubKey = PubHex Hex | PubPoint Point

datatype PrivKey = PrivHex Hex | PrivBigint int | PrivNumber int

definition normalizeSignature :: "Sig \<Rightarrow> err + Signature" where
  "normalizeSignature signature =
     (case signature of
        SigObj sg \<Rightarrow> bindE (Signature_assertValidity sg) (\<lambda>_. Inr sg)
      | SigHex hex \<Rightarrow>
          (case Signature_fromDER hex of
             Inr sg \<Rightarrow> Inr sg
           | Inl error \<Rightarrow> Signature_fromCompact hex))"

definition normalizePublicKey :: "PubKey \<Rightarrow> err + Point" where
  "normalizePublicKey publicKey =
     (case publicKey of
        PubPoint p \<Rightarrow> bindE (assertValidity p) (\<lambda>_. Inr p)
      | PubHex hex \<Rightarrow> Point_fromHex hex)"

definition normalizePrivateKey :: "PrivKey \<Rightarrow> err + int" where
  "normalizePrivateKey key =
     bindE
       (case key of
          PrivBigint k \<Rightarrow> Inr k
        | PrivNumber k \<Rightarrow>
            if \<bar>k\<bar> \<le> 2 ^ 53 - 1 \<and> k > 0 then Inr k else Inl (TypeError ''Expected valid private key'')
        | PrivHex (HexStr t) \<Rightarrow>
            if length t \<noteq> 64 then Inl (Error ''Expected 32 bytes of private key'') else hexToNumber t
        | PrivHex (HexBytes b) \<Rightarrow>
            if length b \<noteq> 32 then Inl (Error ''Expected 32 bytes of private key'') else bytesToNumber b)
       (\<lambda>num. if \<not> isWithinCurveOrder num then Inl (Error ''Expected private key: 0 < key < n'')
               else Inr num)"

definition fromPrivateKey :: "PrivKey \<Rightarrow> err + Point" where
  "fromPrivateKey privateKey = bindE (normalizePrivateKey privateKey) (Point_multiply Point_BASE)"

definition Point_toHex :: "Point \<Rightarrow> bool \<Rightarrow> err + string" where
  "Point_toHex p isCompressed =
     bindE (numTo32bStr (px p)) (\<lambda>x.
       if isCompressed then Inr ((if py p AND 1 \<noteq> 0 then ''03'' else ''02'') @ x)
       else bindE (numTo32bStr (py p)) (\<lambda>y. Inr (''04'' @ x @ y)))"

definition Point_toRawBytes :: "Point \<Rightarrow> bool \<Rightarrow> err + byte list" where
  "Point_toRawBytes p isCompressed = bindE (Point_toHex p isCompressed) hexToBytes"

definition toRawX :: "Point \<Rightarrow> err + byte list" where
  "toRawX p = bindE (Point_toRawBytes p True) (\<lambda>b. Inr (drop 1 b))"

section \<open>Verification and recovery\<close>

text \<open>\<^verbatim>\<open>verify\<close>: the two \<^verbatim>\<open>try\<close> blocks turn a raise into \<^verbatim>\<open>false\<close>; the rest of the body
  is outside them.\<close>

definition verify :: "Sig \<Rightarrow> Hex \<Rightarrow> PubKey \<Rightarrow> bool \<Rightarrow> err + bool" where
  "verify signature msgHash publicKey strict =
     (case bindE (normalizeSignature signature) (\<lambda>sg. bindE (ensureBytes msgHash) (\<lambda>h. Inr (sg, h))) of
        Inl error \<Rightarrow> Inr False
      | Inr (sg, msgHash) \<Rightarrow>
          let r = sig_r sg; s = sig_s sg
          in if strict \<and> hasHighS sg then Inr False
             else
               bindE (truncateHash msgHash) (\<lambda>h.
                 if h = 0 then Inr False
                 else
                   (case normalizePublicKey publicKey of
                      Inl error \<Rightarrow> Inr False
                    | Inr pk \<Rightarrow>
                        let pubKey = fromAffine pk; n = CURVE_n
                        in bindE (invert s n) (\<lambda>s1.
                             let u1 = mod_js (h * s1) n;
                                 u2 = mod_js (r * s1) n
                             in bindE (multiply JacobianPoint_BASE u1 None) (\<lambda>Ghs1.
                                  bindE (multiplyUnsafe pubKey u2) (\<lambda>Prs1.
                                    bindE (toAffine (JacobianPoint_add Ghs1 Prs1)) (\<lambda>R.
                                      let v = mod_js (px R) n in Inr (v = r))))))))"

definition fromSignature :: "Hex \<Rightarrow> Sig \<Rightarrow> int \<Rightarrow> err + Point" where
  "fromSignature msgHash signature recovery =
     bindE (ensureBytes msgHash) (\<lambda>msgHash.
       bindE (truncateHash msgHash) (\<lambda>h.
         bindE (normalizeSignature signature) (\<lambda>sg.
           let r = sig_r sg; s = sig_s sg
           in if recovery \<noteq> 0 \<and> recovery \<noteq> 1
              then Inl (Error ''Cannot recover signature: invalid recovery bit'')
              else if h = 0 then Inl (Error ''Cannot recover signature: msgHash cannot be 0'')
              else
                let prefix = 2 + (recovery AND 1)
                in bindE (numTo32bStr r) (\<lambda>rStr.
                     bindE (Point_fromHex (HexStr (''0'' @ toString16 prefix @ rStr))) (\<lambda>P'.
                       bindE (multiplyUnsafe (fromAffine P') s) (\<lambda>sP.
                         bindE (multiply JacobianPoint_BASE h None) (\<lambda>hG.
                           bindE (invert r CURVE_n) (\<lambda>rinv.
                             bindE (multiplyUnsafe (JacobianPoint_subtract sP hG) rinv) (\<lambda>Q.
                               bindE (toAffine Q) (\<lambda>point.
                                 bindE (assertValidity point) (\<lambda>_. Inr point)))))))))))"

text \<open>\<^verbatim>\<open>recoverPublicKey\<close> is declared to return \<^verbatim>\<open>Uint8Array | undefined\<close>; \<open>None\<close> is
  \<^verbatim>\<open>undefined\<close>.\<close>

definition recoverPublicKey :: "Hex \<Rightarrow> Sig \<Rightarrow> int \<Rightarrow> err + byte list option" where
  "recoverPublicKey msgHash signature recovery =
     bindE (fromSignature msgHash signature recovery) (\<lambda>p.
       bindE (Point_toRawBytes p False) (\<lambda>b. Inr (Some b)))"

section \<open>Schnorr signatures\<close>

text \<open>The hash function is supplied by the caller (\<^verbatim>\<open>utils.sha256\<close>); it is a parameter.\<close>

definition taggedHash :: "(byte list \<Rightarrow> byte list) \<Rightarrow> string \<Rightarrow> byte list list \<Rightarrow> err + int" where
  "taggedHash sha256 tag messages =
     (let tagB = map (\<lambda>c. word_of_nat (of_char c)) tag;
          tagH = sha256 tagB;
          h = sha256 (concat (tagH # tagH # messages))
      in bytesToNumber h)"

definition createChallenge ::
  "(byte list \<Rightarrow> byte list) \<Rightarrow> int \<Rightarrow> Point \<Rightarrow> byte list \<Rightarrow> err + int" where
  "createChallenge sha256 x P message =
     bindE (numTo32b x) (\<lambda>rx.
       bindE (toRawX P) (\<lambda>Px.
         bindE (taggedHash sha256 ''BIP0340/challenge'' [rx, Px, message]) (\<lambda>t.
           Inr (mod_js t CURVE_n))))"

definition hasEvenY :: "Point \<Rightarrow> bool" where
  "hasEvenY point = (mod_js (py point) 2 = 0)"

record SchnorrSignature =
  schnorr_r :: int
  schnorr_s :: int

definition new_SchnorrSignature :: "int \<Rightarrow> int \<Rightarrow> err + SchnorrSignature" where
  "new_SchnorrSignature r s =
     (if \<not> isValidFieldElement r \<or> \<not> isWithinCurveOrder s then Inl (Error ''Invalid signature'')
      else Inr \<lparr>schnorr_r = r, schnorr_s = s\<rparr>)"

definition SchnorrSignature_fromHex :: "Hex \<Rightarrow> err + SchnorrSignature" where
  "SchnorrSignature_fromHex hex =
     bindE (ensureBytes hex) (\<lambda>bytes.
       if length bytes \<noteq> 64 then Inl (TypeError ''SchnorrSignature.fromHex: expected 64 bytes'')
       else bindE (bytesToNumber (take 32 bytes)) (\<lambda>r.
              bindE (bytesToNumber (take 32 (drop 32 bytes))) (\<lambda>s. new_SchnorrSignature r s)))"

datatype SchnorrSig = SchnorrHex Hex | SchnorrObj SchnorrSignature

definition schnorrVerify ::
  "(byte list \<Rightarrow> byte list) \<Rightarrow> SchnorrSig \<Rightarrow> Hex \<Rightarrow> Hex \<Rightarrow> err + bool" where
  "schnorrVerify sha256 signature message publicKey =
     bindE (case signature of SchnorrObj sg \<Rightarrow> Inr sg | SchnorrHex hex \<Rightarrow> SchnorrSignature_fromHex hex)
       (\<lambda>sg.
         bindE (ensureBytes message) (\<lambda>m.
           bindE (normalizePublicKey (PubHex publicKey)) (\<lambda>P.
             bindE (createChallenge sha256 (schnorr_r sg) P m) (\<lambda>e.
               bindE (fromPrivateKey (PrivBigint (schnorr_s sg))) (\<lambda>sG.
                 bindE (Point_multiply P e) (\<lambda>eP.
                   bindE (Point_subtract sG eP) (\<lambda>R.
                     if Point_equals R Point_BASE \<or> \<not> hasEvenY R \<or> px R \<noteq> schnorr_r sg
                     then Inr False else Inr True)))))))"

section \<open>Notions of the statements\<close>

text \<open>A string of lower-case hexadecimal digits, as \<^verbatim>\<open>toString(16)\<close> produces them.\<close>

definition lowerHex :: "string \<Rightarrow> bool" where
  "lowerHex s = (\<forall>c\<in>set s. c \<in> hexDigitChar ` {..<16})"

text \<open>The content bytes of a DER integer that is positive and minimal: a first byte below
  \<^verbatim>\<open>0x80\<close> that is not zero, or a zero byte followed by a byte from \<^verbatim>\<open>0x80\<close> on.\<close>

definition derMinimal :: "byte list \<Rightarrow> bool" where
  "derMinimal bytes =
     (bytes \<noteq> [] \<and> (if bytes ! 0 = 0 then 2 \<le> length bytes \<and> 0x80 \<le> bytes ! 1 else bytes ! 0 < 0x80))"

text \<open>A Jacobian point with \<open>z = 1\<close> and both coordinates in \<open>(0, P)\<close>.\<close>

definition normalized :: "JacobianPoint \<Rightarrow> bool" where
  "normalized q = (jz q = 1 \<and> 0 < jx q \<and> jx q < CURVE_P \<and> 0 < jy q \<and> jy q < CURVE_P)"

text \<open>Inputs of the examples: the negation of the base point, the 32 bytes of the
  base point's \<open>x\<close>, the 32 bytes of the number 1, and a hash function that returns them.\<close>

definition negG :: Point where
  "negG = \<lparr>px = CURVE_Gx, py = CURVE_P - CURVE_Gy, WINDOW_SIZE = None\<rparr>"

definition GxBytes :: "byte list" where
  "GxBytes = [0x79, 0xbe, 0x66, 0x7e, 0xf9, 0xdc, 0xbb, 0xac, 0x55, 0xa0, 0x62, 0x95, 0xce, 0x87, 0x0b, 0x07, 0x02, 0x9b, 0xfc, 0xdb, 0x2d, 0xce, 0x28, 0xd9, 0x59, 0xf2, 0x81, 0x5b, 0x16, 0xf8, 0x17, 0x98]"

definition oneBytes :: "byte list" where
  "oneBytes = replicate 31 0 @ [1]"

definition constSha :: "byte list \<Rightarrow> byte list" where
  "constSha message = oneBytes"

text \<open>Sixty-four bytes that hold \<open>r\<close> and \<open>s\<close>, both in \<open>(0, n)\<close>: a valid compact signature.\<close>

definition compactInRange :: "byte list \<Rightarrow> bool" where
  "compactInRange b =
     (length b = 64 \<and> 0 < bigEndian (take 32 b) \<and> bigEndian (take 32 b) < CURVE_n
        \<and> 0 < bigEndian (drop 32 b) \<and> bigEndian (drop 32 b) < CURVE_n)"

text \<open>The content bytes of an integer that \<^verbatim>\<open>parseDERInt\<close> lets pass: not empty, and no zero
  byte followed by a byte up to \<^verbatim>\<open>0x7f\<close>.\<close>

definition derAccepted :: "byte list \<Rightarrow> bool" where
  "derAccepted R = (R \<noteq> [] \<and> \<not> (R ! 0 = 0x00 \<and> 1 < length R \<and> R ! 1 \<le> 0x7f))"

text \<open>The bytes \<^verbatim>\<open>30 L 02 rl R 02 sl S\<close> with the three lengths right, where \<open>R\<close> and \<open>S\<close> are
  the big-endian bytes of \<open>r\<close> and \<open>s\<close>.\<close>

definition derPair :: "byte list \<Rightarrow> int \<Rightarrow> int \<Rightarrow> bool" where
  "derPair b r s =
     (\<exists>L rl R sl S. b = [0x30, L, 0x02, rl] @ R @ [0x02, sl] @ S
        \<and> unat L = length R + length S + 4 \<and> unat rl = length R \<and> unat sl = length S
        \<and> derAccepted R \<and> derAccepted S \<and> r = bigEndian R \<and> s = bigEndian S)"

text \<open>Some point of the curve \<open>y\<^sup>2 = x\<^sup>3 + 7\<close> has the \<open>x\<close>-coordinate \<open>x\<close>.\<close>

definition onCurveX :: "int \<Rightarrow> bool" where
  "onCurveX x = (\<exists>y. 0 < y \<and> y < CURVE_P \<and> (y * y) mod CURVE_P = (x ^ 3 + 7) mod CURVE_P)"

text \<open>The value \<open>c = (x\<^sup>3 + 7) mod P\<close> is 0, or its power \<open>(P + 1) / 2\<close> is not \<open>c\<close> again:
  the power \<open>(P + 1) / 4\<close> of \<open>c\<close> is then no nonzero square root of \<open>c\<close>.\<close>

definition noSquareRoot :: "int \<Rightarrow> bool" where
  "noSquareRoot x =
     (let c = (x ^ 3 + 7) mod CURVE_P
      in c = 0 \<or> c ^ nat ((CURVE_P + 1) div 2) mod CURVE_P \<noteq> c)"

section \<open>Properties\<close>

subsection \<open>Arithmetic of the language and constants\<close>

lemma pow_loop_eq: "pow_loop k a r = r * a ^ k"
  by (induction k arbitrary: r) (simp_all add: algebra_simps)

lemma pow_eq: "pow a b = a ^ nat b"
  by (simp add: pow_def pow_loop_eq)

lemma POW_2_256_eq: "POW_2_256 = 2 ^ 256"
  by (simp add: POW_2_256_def pow_eq)

lemma CURVE_P_val: "CURVE_P = 115792089237316195423570985008687907853269984665640564039457584007908834671663"
  by (simp add: CURVE_P_def POW_2_256_eq pow_eq)

lemma CURVE_n_val: "CURVE_n = 115792089237316195423570985008687907852837564279074904382605163141518161494337"
  by (simp add: CURVE_n_def POW_2_256_eq)

lemma mod_js_pos: "0 < b \<Longrightarrow> mod_js a b = a mod b"
proof -
  assume b: "0 < b"
  show ?thesis
  proof (cases "a \<ge> 0")
    case True
    then show ?thesis using b by (simp add: mod_js_def bigint_rem_def Let_def sgn_if)
  next
    case False
    then have a: "a < 0" by simp
    define m where "m = (- a) mod b"
    have m: "0 \<le> m" "m < b" using b by (simp_all add: m_def)
    have rhs: "a mod b = (if m = 0 then 0 else b - m)"
      using zmod_zminus1_eq_if [of "- a" b] by (simp add: m_def)
    have "bigint_rem a b = - m"
      using a b by (simp add: bigint_rem_def sgn_if abs_if m_def)
    then have "mod_js a b = (if m = 0 then 0 else b - m)"
      using m by (auto simp add: mod_js_def Let_def)
    then show ?thesis using rhs by simp
  qed
qed

lemma hexDigitVal_hexDigitChar: "d < 16 \<Longrightarrow> hexDigitVal (hexDigitChar d) = Some d"
proof -
  assume "d < 16"
  then have "d = 0 \<or> d = 1 \<or> d = 2 \<or> d = 3 \<or> d = 4 \<or> d = 5 \<or> d = 6 \<or> d = 7 \<or> d = 8
      \<or> d = 9 \<or> d = 10 \<or> d = 11 \<or> d = 12 \<or> d = 13 \<or> d = 14 \<or> d = 15"
    by presburger
  then show ?thesis
    by (elim disjE) (simp_all add: hexDigitVal_def hexDigitChar_def)
qed

lemma hexes_nth:
  assumes "k < 256"
  shows "hexes ! k = [hexDigitChar (k div 16), hexDigitChar (k mod 16)]"
proof -
  have "hexes ! k = padStart 2 (CHR ''0'') (toString16 (int k))"
    using assms by (simp add: hexes_def del: upt_Suc)
  also have "\<dots> = [hexDigitChar (k div 16), hexDigitChar (k mod 16)]"
  proof (cases "k < 16")
    case True
    then show ?thesis
      by (simp add: padStart_def toString16_def toString16_nat.simps [of k] hexDigitChar_def)
  next
    case False
    then have "k div 16 < 16" using assms by simp
    then show ?thesis using False
      by (simp add: padStart_def toString16_def toString16_nat.simps [of k]
          toString16_nat.simps [of "k div 16"])
  qed
  finally show ?thesis .
qed

subsection \<open>Bytes, hexadecimal strings and numbers\<close>

lemma foldl_horner:
  fixes B :: "'a :: comm_semiring_1"
  shows "foldl (\<lambda>acc c. B * acc + g c) a s = a * B ^ length s + foldl (\<lambda>acc c. B * acc + g c) 0 s"
  by (induction s rule: rev_induct) (simp_all add: algebra_simps)

lemma hexValue_foldl:
  "foldl (\<lambda>acc c. 16 * acc + the (hexDigitVal c)) a s = a * 16 ^ length s + hexValue s"
  unfolding hexValue_def by (rule foldl_horner)

lemma hexValue_Nil [simp]: "hexValue [] = 0"
  by (simp add: hexValue_def)

lemma hexValue_append: "hexValue (s @ t) = hexValue s * 16 ^ length t + hexValue t"
  using hexValue_foldl [of "hexValue s" t] by (simp add: hexValue_def)

lemma hexValue_Cons: "hexValue (c # s) = the (hexDigitVal c) * 16 ^ length s + hexValue s"
  using hexValue_append [of "[c]" s] by (simp add: hexValue_def)

lemma bigEndian_foldl:
  "foldl (\<lambda>acc b. 256 * acc + uint b) a (bs :: byte list) = a * 256 ^ length bs + bigEndian bs"
  unfolding bigEndian_def by (rule foldl_horner)

lemma bigEndian_Nil [simp]: "bigEndian [] = 0"
  by (simp add: bigEndian_def)

lemma bigEndian_Cons: "bigEndian (b # bs) = uint b * 256 ^ length bs + bigEndian bs"
  using bigEndian_foldl [of "uint b" bs] by (simp add: bigEndian_def)

lemma bigEndian_append: "bigEndian (as @ bs) = bigEndian as * 256 ^ length bs + bigEndian bs"
  using bigEndian_foldl [of "bigEndian as" bs] by (simp add: bigEndian_def)

lemma bigEndian_nonneg: "0 \<le> bigEndian bs"
  by (induction bs) (simp_all add: bigEndian_Cons)

lemma bigEndian_less: "bigEndian bs < 256 ^ length bs"
proof (induction bs)
  case Nil
  show ?case by simp
next
  case (Cons b bs)
  have "uint b \<le> 255" using uint_bounded [of b] by simp
  then have "uint b * 256 ^ length bs \<le> 255 * 256 ^ length bs"
    by (simp add: mult_right_mono)
  moreover have "(256 :: int) ^ length (b # bs) = 255 * 256 ^ length bs + 256 ^ length bs"
    by simp
  ultimately show ?case using Cons unfolding bigEndian_Cons by linarith
qed

lemma isHexDigit_hexDigitChar: "d < 16 \<Longrightarrow> isHexDigit (hexDigitChar d)"
  by (simp add: isHexDigit_def hexDigitVal_hexDigitChar)

lemma isHexDigit_not_white: "isHexDigit c \<Longrightarrow> \<not> isWhiteSpace c"
  by (auto simp add: isHexDigit_def hexDigitVal_def isWhiteSpace_def Let_def split: if_splits)

lemma bytesToHex_Nil [simp]: "bytesToHex [] = []"
  by (simp add: bytesToHex_def)

lemma bytesToHex_Cons:
  "bytesToHex (b # bs) = hexDigitChar (unat b div 16) # hexDigitChar (unat b mod 16) # bytesToHex bs"
proof -
  have "unat b < 256" using unsigned_less [of b, where 'a = nat] by simp
  then show ?thesis by (simp add: bytesToHex_def hexes_nth)
qed

lemma unat_byte_div16: "unat (b :: byte) div 16 < 16"
  using unsigned_less [of b, where 'a = nat] by simp

lemma length_bytesToHex [simp]: "length (bytesToHex bs) = 2 * length bs"
  by (induction bs) (simp_all add: bytesToHex_Cons)

lemma bytesToHex_digits: "list_all isHexDigit (bytesToHex bs)"
  by (induction bs) (simp_all add: bytesToHex_Cons isHexDigit_hexDigitChar unat_byte_div16)

lemma pow16_even: "(16 :: nat) ^ (2 * k) = 256 ^ k"
proof -
  have "(16 :: nat) ^ (2 * k) = (16 ^ 2) ^ k" by (rule power_mult)
  then show ?thesis by simp
qed

lemma hexValue_bytesToHex: "int (hexValue (bytesToHex bs)) = bigEndian bs"
proof (induction bs)
  case Nil
  show ?case by simp
next
  case (Cons b bs)
  define h where "h = hexValue (bytesToHex bs)"
  define k where "k = (256 :: nat) ^ length bs"
  have "hexValue (bytesToHex (b # bs)) = (unat b div 16) * (16 * k) + ((unat b mod 16) * k + h)"
    by (simp add: bytesToHex_Cons hexValue_Cons hexDigitVal_hexDigitChar unat_byte_div16
        pow16_even h_def k_def)
  also have "\<dots> = (16 * (unat b div 16) + unat b mod 16) * k + h"
  proof -
    have "q * (16 * k) + (r * k + h) = (16 * q + r) * k + h" for q r :: nat
      by (simp add: algebra_simps)
    then show ?thesis .
  qed
  also have "\<dots> = unat b * k + h" by (simp only: mult_div_mod_eq)
  finally have "int (hexValue (bytesToHex (b # bs))) = int (unat b) * int k + int h"
    by simp
  then show ?case using Cons by (simp add: bigEndian_Cons h_def k_def)
qed

lemma hexToNumber_digits:
  assumes "s \<noteq> []" and "list_all isHexDigit s"
  shows "hexToNumber s = Inr (int (hexValue s))"
proof -
  have "isHexDigit (last s)" using assms by (simp add: list_all_iff)
  then have "\<not> isWhiteSpace (hd (rev s))"
    using assms(1) by (simp add: hd_rev isHexDigit_not_white)
  then have "dropWhile isWhiteSpace (rev s) = rev s"
    using assms(1) by (cases "rev s") simp_all
  then show ?thesis using assms by (simp add: hexToNumber_def)
qed

lemma hexToNumber_Nil: "hexToNumber [] = Inl (SyntaxError ''Cannot convert to a BigInt'')"
  by (simp add: hexToNumber_def)

lemma bytesToNumber_eq: "bs \<noteq> [] \<Longrightarrow> bytesToNumber bs = Inr (bigEndian bs)"
proof -
  assume "bs \<noteq> []"
  then have "bytesToHex bs \<noteq> []"
    using length_bytesToHex [of bs] by (cases "bytesToHex bs") simp_all
  then have "hexToNumber (bytesToHex bs) = Inr (int (hexValue (bytesToHex bs)))"
    by (rule hexToNumber_digits) (rule bytesToHex_digits)
  then show ?thesis by (simp add: bytesToNumber_def hexValue_bytesToHex)
qed

lemma bytesToNumber_Nil: "bytesToNumber [] = Inl (SyntaxError ''Cannot convert to a BigInt'')"
  by (simp add: bytesToNumber_def hexToNumber_Nil)

subsection \<open>Modular inverse and batched inversion\<close>

lemma bigint_div_pos: "0 \<le> b \<Longrightarrow> 0 < a \<Longrightarrow> bigint_div b a = b div a"
  by (cases "b = 0") (simp_all add: bigint_div_def)

lemma bigint_rem_nonneg: "0 \<le> b \<Longrightarrow> bigint_rem b a = b mod \<bar>a\<bar>"
  by (cases "b = 0") (simp_all add: bigint_rem_def)

lemma bigint_rem_pos: "0 \<le> b \<Longrightarrow> 0 < a \<Longrightarrow> bigint_rem b a = b mod a"
  by (simp add: bigint_rem_nonneg)

lemma invert_loop_zero [simp]: "invert_loop 0 b x y u v = (b, x)"
  by (simp add: invert_loop.simps [of 0])

lemma invert_loop_gcd:
  "0 \<le> a \<Longrightarrow> 0 \<le> b \<Longrightarrow> fst (invert_loop a b x y u v) = gcd a b"
proof (induction a b x y u v rule: invert_loop.induct)
  case (1 a b x y u v)
  show ?case
  proof (cases "a = 0")
    case True
    then show ?thesis using 1(3) by simp
  next
    case False
    then have a: "0 < a" using 1(2) by simp
    have r: "bigint_rem b a = b mod a" using a 1(3) by (simp add: bigint_rem_pos)
    have "fst (invert_loop (b mod a) a u v (x - u * bigint_div b a) (y - v * bigint_div b a))
        = gcd (b mod a) a"
      using 1(1) [OF False refl refl refl refl] a 1(3) by (simp add: r)
    also have "\<dots> = gcd a b"
      by (metis gcd.commute gcd_red_int)
    finally show ?thesis
      using False by (simp add: invert_loop.simps [of a b] Let_def r)
  qed
qed

lemma invert_loop_inverse:
  "0 \<le> a \<Longrightarrow> 0 \<le> b \<Longrightarrow> (x * N) mod M = b mod M \<Longrightarrow> (u * N) mod M = a mod M \<Longrightarrow>
   (snd (invert_loop a b x y u v) * N) mod M = fst (invert_loop a b x y u v) mod M"
proof (induction a b x y u v rule: invert_loop.induct)
  case (1 a b x y u v)
  show ?case
  proof (cases "a = 0")
    case True
    then show ?thesis using 1(4) by simp
  next
    case False
    then have a: "0 < a" using 1(2) by simp
    define q where "q = bigint_div b a"
    have q: "q = b div a" using a 1(3) by (simp add: q_def bigint_div_pos)
    have r: "bigint_rem b a = b mod a" using a 1(3) by (simp add: bigint_rem_pos)
    have "((x - u * q) * N) mod M = (x * N - q * (u * N)) mod M"
      by (simp add: algebra_simps)
    also have "\<dots> = (b - q * a) mod M"
      using 1(4) 1(5) by (metis mod_diff_cong mod_mult_cong)
    also have "b - q * a = b mod a"
      by (simp add: q minus_div_mult_eq_mod)
    finally have step: "((x - u * q) * N) mod M = (b mod a) mod M" .
    have "(snd (invert_loop (b mod a) a u v (x - u * q) (y - v * q)) * N) mod M
        = fst (invert_loop (b mod a) a u v (x - u * q) (y - v * q)) mod M"
      using 1(1) [OF False refl refl refl refl] a 1(3) 1(5) step by (simp add: r q_def)
    then show ?thesis
      using False by (simp add: invert_loop.simps [of a b] Let_def r q_def)
  qed
qed

lemma mod_js_range: "0 < b \<Longrightarrow> 0 \<le> mod_js a b \<and> mod_js a b < b"
  by (simp add: mod_js_pos)

lemma invert_Inr:
  assumes "invert number md = Inr y"
  shows "0 < md \<and> 0 \<le> y \<and> y < md \<and> (y * number) mod md = 1 mod md \<and> coprime number md"
proof -
  have md: "0 < md" and nz: "number \<noteq> 0"
    using assms by (auto simp add: invert_def split: if_splits)
  define a where "a = mod_js number md"
  define g where "g = fst (invert_loop a md 0 1 1 0)"
  define x where "x = snd (invert_loop a md 0 1 1 0)"
  have a: "a = number mod md" "0 \<le> a" using md by (simp_all add: a_def mod_js_pos)
  have "g = 1" and y: "y = mod_js x md"
    using assms md nz
    by (auto simp add: invert_def a_def g_def x_def Let_def split_beta split: if_splits)
  have "g = gcd a md" using a md by (simp add: g_def invert_loop_gcd)
  then have "gcd number md = 1"
    using \<open>g = 1\<close> a(1) by (metis gcd.commute gcd_red_int)
  moreover have "(x * number) mod md = g mod md"
    unfolding x_def g_def
    using a md by (intro invert_loop_inverse) simp_all
  ultimately show ?thesis
    using md \<open>g = 1\<close> y by (simp add: mod_js_pos mod_mult_left_eq coprime_iff_gcd_eq_1)
qed

lemma invert_coprime:
  assumes "0 < md" and "number \<noteq> 0" and "coprime number md"
  shows "\<exists>y. invert number md = Inr y"
proof -
  define a where "a = mod_js number md"
  have a: "a = number mod md" "0 \<le> a" using assms(1) by (simp_all add: a_def mod_js_pos)
  have "fst (invert_loop a md 0 1 1 0) = gcd a md"
    using a assms(1) by (simp add: invert_loop_gcd)
  also have "\<dots> = gcd number md" using a(1) by (metis gcd.commute gcd_red_int)
  also have "\<dots> = 1" using assms(3) by (simp add: coprime_iff_gcd_eq_1)
  finally show ?thesis
    using assms by (simp add: invert_def a_def Let_def split_beta)
qed

lemma inverse_unique:
  assumes "0 \<le> y" "y < m" "0 \<le> z" "z < m"
    and "(y * x) mod m = 1 mod m" and "(z * x) mod m = 1 mod m"
  shows "y = (z :: int)"
proof -
  have "y mod m = (y * ((z * x) mod m)) mod m"
    using assms(6) by (simp add: mod_mult_right_eq)
  also have "\<dots> = (z * ((y * x) mod m)) mod m"
    by (simp add: mod_mult_right_eq algebra_simps)
  also have "\<dots> = z mod m"
    using assms(5) by (simp add: mod_mult_right_eq)
  finally show ?thesis using assms(1-4) by simp
qed

lemma invertBatch_scan_ok:
  assumes "n \<noteq> 0"
  shows "\<exists>scratch a. invertBatch_scan xs n acc = Inr (scratch, a) \<and> length scratch = length xs"
proof (induction xs arbitrary: acc)
  case Nil
  show ?case by simp
next
  case (Cons x xs)
  show ?case
  proof (cases "x = 0")
    case True
    from Cons [of acc] obtain sc a where "invertBatch_scan xs n acc = Inr (sc, a)" "length sc = length xs"
      by blast
    then show ?thesis using True by (simp add: bindE_def)
  next
    case False
    from Cons [of "mod_js (acc * x) n"] obtain sc a
      where "invertBatch_scan xs n (mod_js (acc * x) n) = Inr (sc, a)" "length sc = length xs"
      by blast
    then show ?thesis using False assms by (simp add: bindE_def)
  qed
qed

lemma invertBatch_scan_coprime:
  assumes "0 < n" and "invertBatch_scan xs n acc = Inr (scratch, a)"
    and "coprime acc n" and "\<forall>x\<in>set xs. x \<noteq> 0 \<longrightarrow> coprime x n"
  shows "coprime a n"
  using assms(2-4)
proof (induction xs arbitrary: acc scratch)
  case Nil
  then show ?case by simp
next
  case (Cons x xs)
  show ?case
  proof (cases "x = 0")
    case True
    with Cons.prems obtain sc where "invertBatch_scan xs n acc = Inr (sc, a)"
      by (auto simp add: bindE_def split: sum.splits)
    then show ?thesis using Cons.IH [of acc sc] Cons.prems by simp
  next
    case False
    with Cons.prems assms(1) obtain sc
      where sc: "invertBatch_scan xs n (mod_js (acc * x) n) = Inr (sc, a)"
      by (auto simp add: bindE_def split: sum.splits)
    have "coprime (acc * x) n" using Cons.prems False by simp
    then have "coprime (mod_js (acc * x) n) n"
      using assms(1) by (simp add: mod_js_pos coprime_mod_left_iff)
    then show ?thesis using Cons.IH [OF sc] Cons.prems by simp
  qed
qed

lemma invertBatch_unwind_correct:
  assumes "0 < n" and "invertBatch_scan xs n acc = Inr (scratch, a)"
    and "(ainv * a) mod n = 1 mod n"
  shows "length (fst (invertBatch_unwind xs scratch n ainv)) = length xs
     \<and> (snd (invertBatch_unwind xs scratch n ainv) * acc) mod n = 1 mod n
     \<and> (\<forall>i<length xs.
          (xs ! i = 0 \<longrightarrow> fst (invertBatch_unwind xs scratch n ainv) ! i = 0) \<and>
          (xs ! i \<noteq> 0 \<longrightarrow>
             (fst (invertBatch_unwind xs scratch n ainv) ! i * xs ! i) mod n = 1 mod n
             \<and> 0 \<le> fst (invertBatch_unwind xs scratch n ainv) ! i
             \<and> fst (invertBatch_unwind xs scratch n ainv) ! i < n))"
  using assms(2)
proof (induction xs arbitrary: acc scratch)
  case Nil
  then show ?case using assms(3) by (simp add: algebra_simps)
next
  case (Cons x xs)
  show ?case
  proof (cases "x = 0")
    case True
    with Cons.prems obtain sc where sc: "invertBatch_scan xs n acc = Inr (sc, a)"
      and scratch: "scratch = None # sc"
      by (auto simp add: bindE_def split: sum.splits)
    show ?thesis
      using Cons.IH [OF sc] True
      by (auto simp add: scratch split_beta Let_def nth_Cons split: nat.splits)
  next
    case False
    with Cons.prems assms(1) obtain sc
      where sc: "invertBatch_scan xs n (mod_js (acc * x) n) = Inr (sc, a)"
      and scratch: "scratch = Some acc # sc"
      by (auto simp add: bindE_def split: sum.splits)
    define ys where "ys = fst (invertBatch_unwind xs sc n ainv)"
    define a1 where "a1 = snd (invertBatch_unwind xs sc n ainv)"
    note IH = Cons.IH [OF sc, folded ys_def a1_def]
    have "(a1 * ((acc * x) mod n)) mod n = 1 mod n"
      using IH assms(1) by (simp add: mod_js_pos)
    then have key: "(a1 * acc * x) mod n = 1 mod n"
      by (simp add: mod_mult_right_eq mult.assoc)
    have res: "invertBatch_unwind (x # xs) scratch n ainv
        = (mod_js (a1 * acc) n # ys, mod_js (a1 * x) n)"
      using False by (simp add: scratch split_beta Let_def ys_def a1_def)
    have h1: "(mod_js (a1 * acc) n * x) mod n = 1 mod n"
      using key assms(1) by (simp add: mod_js_pos mod_mult_left_eq)
    have "((a1 * x) mod n * acc) mod n = (a1 * x * acc) mod n"
      by (simp add: mod_mult_left_eq)
    also have "a1 * x * acc = a1 * acc * x" by simp
    finally have h2: "(mod_js (a1 * x) n * acc) mod n = 1 mod n"
      using key assms(1) by (simp add: mod_js_pos)
    show ?thesis
      unfolding res using IH h1 h2 False assms(1)
      by (auto simp add: nth_Cons mod_js_pos split: nat.splits)
  qed
qed

lemma invertBatch_counted_Inr:
  assumes "invertBatch_counted xs n = (Inr ys, c)"
  shows "c = 1 \<and> 0 < n \<and> length ys = length xs
     \<and> (\<forall>i<length xs.
          (xs ! i = 0 \<longrightarrow> ys ! i = 0) \<and>
          (xs ! i \<noteq> 0 \<longrightarrow> (ys ! i * xs ! i) mod n = 1 mod n \<and> 0 \<le> ys ! i \<and> ys ! i < n))"
proof -
  from assms obtain scratch a ainv
    where scan: "invertBatch_scan xs n 1 = Inr (scratch, a)"
      and inv: "invert a n = Inr ainv"
      and ys: "ys = fst (invertBatch_unwind xs scratch n ainv)"
      and c: "c = 1"
    by (auto simp add: invertBatch_counted_def split: sum.splits)
  from invert_Inr [OF inv] have n: "0 < n" and "(ainv * a) mod n = 1 mod n"
    by simp_all
  from invertBatch_unwind_correct [OF n scan this(2)] show ?thesis
    using c n by (simp add: ys)
qed

lemma invertBatch_Inr:
  assumes "invertBatch xs n = Inr ys"
  shows "length ys = length xs
     \<and> (\<forall>i<length xs.
          (xs ! i = 0 \<longrightarrow> ys ! i = 0) \<and>
          (xs ! i \<noteq> 0 \<longrightarrow> (ys ! i * xs ! i) mod n = 1 mod n \<and> 0 \<le> ys ! i \<and> ys ! i < n))"
  using assms invertBatch_counted_Inr [of xs n ys "snd (invertBatch_counted xs n)"]
  by (cases "invertBatch_counted xs n") (simp add: invertBatch_def)

text \<open>
  Claim C6. For a modulus \<open>m > 1\<close> and a list whose nonzero entries are invertible modulo
  \<open>m\<close> (as every nonzero element of a field is), \<^verbatim>\<open>invertBatch\<close> returns a list of the same
  length; a zero entry stays zero, a nonzero entry \<open>x\<close> is replaced by the \<open>y\<close> with
  \<open>y * x mod m = 1\<close>, which is the value \<^verbatim>\<open>invert(x, m)\<close> returns; and \<^verbatim>\<open>invert\<close> is called
  exactly once.
\<close>

theorem invertBatch_inverts:
  assumes "1 < m" and "\<forall>x\<in>set xs. x \<noteq> 0 \<longrightarrow> coprime x m"
  shows "\<exists>ys. invertBatch_counted xs m = (Inr ys, 1) \<and> invertBatch xs m = Inr ys
     \<and> length ys = length xs
     \<and> (\<forall>i<length xs.
          (xs ! i = 0 \<longrightarrow> ys ! i = 0) \<and>
          (xs ! i \<noteq> 0 \<longrightarrow> (ys ! i * xs ! i) mod m = 1 \<and> invert (xs ! i) m = Inr (ys ! i)))"
proof -
  have m: "0 < m" "m \<noteq> 0" using assms(1) by simp_all
  from invertBatch_scan_ok [OF m(2), of xs 1] obtain scratch a
    where scan: "invertBatch_scan xs m 1 = Inr (scratch, a)"
    by blast
  have cop: "coprime a m"
    using invertBatch_scan_coprime [OF m(1) scan] assms(2) by simp
  have "a \<noteq> 0"
  proof
    assume "a = 0"
    with cop have "is_unit m" by simp
    then show False using assms(1) by simp
  qed
  with invert_coprime [OF m(1) _ cop] obtain ainv where inv: "invert a m = Inr ainv"
    by blast
  define ys where "ys = fst (invertBatch_unwind xs scratch m ainv)"
  have counted: "invertBatch_counted xs m = (Inr ys, 1)"
    by (simp add: invertBatch_counted_def scan inv ys_def)
  note props = invertBatch_counted_Inr [OF counted]
  have "invert (xs ! i) m = Inr (ys ! i)" if i: "i < length xs" and nz: "xs ! i \<noteq> 0" for i
  proof -
    have "coprime (xs ! i) m" using assms(2) i nz by simp
    from invert_coprime [OF m(1) nz this] obtain y where y: "invert (xs ! i) m = Inr y"
      by blast
    from invert_Inr [OF y] props i nz have "y = ys ! i"
      by (intro inverse_unique [of y m "ys ! i" "xs ! i"]) simp_all
    then show ?thesis using y by simp
  qed
  then show ?thesis
    using counted props assms(1) by (auto simp add: invertBatch_def)
qed

text \<open>The list \<open>[3, 0, 5]\<close> modulo 7.\<close>

theorem invertBatch_inverts_witness:
  "(1 :: int) < 7 \<and> coprime (3 :: int) 7 \<and> coprime (5 :: int) 7
   \<and> (\<exists>ys. invertBatch_counted [3, 0, 5] 7 = (Inr ys, 1) \<and> invertBatch [3, 0, 5] 7 = Inr ys
      \<and> length ys = length [3, 0, 5 :: int]
      \<and> (\<forall>i<length [3, 0, 5 :: int].
          ([3, 0, 5 :: int] ! i = 0 \<longrightarrow> ys ! i = 0) \<and>
          ([3, 0, 5 :: int] ! i \<noteq> 0 \<longrightarrow> (ys ! i * [3, 0, 5] ! i) mod 7 = 1
              \<and> invert ([3, 0, 5] ! i) 7 = Inr (ys ! i))))"
proof -
  have h: "\<forall>x\<in>set [3, 0, 5 :: int]. x \<noteq> 0 \<longrightarrow> coprime x 7"
    by (simp add: coprime_iff_gcd_eq_1 gcd_red_int [of 7] gcd_red_int [of 3] gcd_red_int [of 5] gcd_red_int [of 2])
  show ?thesis
    using invertBatch_inverts [of 7 "[3, 0, 5]", OF _ h] h by simp
qed

subsection \<open>The square root\<close>

lemma CURVE_P_pos: "0 < CURVE_P"
  by (simp add: CURVE_P_val)

lemma bigint_rem_P: "0 \<le> a \<Longrightarrow> bigint_rem a CURVE_P = a mod CURVE_P"
  using CURVE_P_pos by (simp add: bigint_rem_pos)

lemma pow2_loop_eq:
  "0 \<le> x \<Longrightarrow> pow2_loop (Suc k) x = x ^ (2 ^ Suc k) mod CURVE_P"
proof (induction k arbitrary: x)
  case 0
  then show ?case by (simp add: bigint_rem_P power2_eq_square)
next
  case (Suc k)
  have nn: "0 \<le> x * x mod CURVE_P" using CURVE_P_pos by simp
  have "pow2_loop (Suc (Suc k)) x = pow2_loop (Suc k) (x * x mod CURVE_P)"
    using Suc.prems by (simp add: bigint_rem_P)
  also have "\<dots> = (x * x mod CURVE_P) ^ (2 ^ Suc k) mod CURVE_P"
    by (rule Suc.IH [OF nn])
  also have "\<dots> = (x * x) ^ (2 ^ Suc k) mod CURVE_P"
    by (rule power_mod)
  also have "(x * x) ^ (2 ^ Suc k) = x ^ (2 ^ Suc (Suc k))"
    by (simp add: power_mult [symmetric] power2_eq_square [symmetric])
  finally show ?case .
qed

lemma pow2_eq:
  assumes "0 \<le> x" and "0 < k"
  shows "pow2 x (int k) = x ^ (2 ^ k) mod CURVE_P"
proof -
  from assms(2) obtain j where "k = Suc j" by (cases k) simp_all
  then show ?thesis using pow2_loop_eq [OF assms(1), of j] by (simp add: pow2_def del: of_nat_Suc)
qed

lemma sqrtMod_step:
  assumes "0 \<le> x" and "0 < k"
  shows "bigint_rem (pow2 (x ^ a mod CURVE_P) (int k) * (x ^ b mod CURVE_P)) CURVE_P
     = x ^ (a * 2 ^ k + b) mod CURVE_P"
proof -
  have nn: "0 \<le> x ^ a mod CURVE_P" "0 \<le> x ^ b mod CURVE_P"
    using CURVE_P_pos by simp_all
  have p: "pow2 (x ^ a mod CURVE_P) (int k) = (x ^ a) ^ (2 ^ k) mod CURVE_P"
    using pow2_eq [OF nn(1) assms(2)] by (simp add: power_mod)
  have "0 \<le> pow2 (x ^ a mod CURVE_P) (int k) * (x ^ b mod CURVE_P)"
    unfolding p using CURVE_P_pos nn by simp
  then have "bigint_rem (pow2 (x ^ a mod CURVE_P) (int k) * (x ^ b mod CURVE_P)) CURVE_P
      = ((x ^ a) ^ (2 ^ k) mod CURVE_P * (x ^ b mod CURVE_P)) mod CURVE_P"
    by (simp add: bigint_rem_P p)
  also have "\<dots> = ((x ^ a) ^ (2 ^ k) * x ^ b) mod CURVE_P"
    by (simp add: mod_mult_eq)
  also have "(x ^ a) ^ (2 ^ k) * x ^ b = x ^ (a * 2 ^ k + b)"
    by (simp add: power_add power_mult)
  finally show ?thesis .
qed

lemma mod_mult3: "(a mod m * (b mod m) * c) mod m = (a * b * c) mod (m :: int)"
  by (rule mod_mult_cong [OF mod_mult_eq refl])

lemma sqrtMod_exponent: "nat ((CURVE_P + 1) div 4) = 28948022309329048855892746252171976963317496166410141009864396001977208667916"
  by (simp add: CURVE_P_val)

lemma sqrtMod_eq_power:
  assumes "0 \<le> x"
  shows "sqrtMod x = x ^ nat ((CURVE_P + 1) div 4) mod CURVE_P"
proof -
  define b2 where "b2 = bigint_rem (x * x * x) CURVE_P"
  define b3 where "b3 = bigint_rem (b2 * b2 * x) CURVE_P"
  define b6 where "b6 = bigint_rem (pow2 b3 3 * b3) CURVE_P"
  define b9 where "b9 = bigint_rem (pow2 b6 3 * b3) CURVE_P"
  define b11 where "b11 = bigint_rem (pow2 b9 2 * b2) CURVE_P"
  define b22 where "b22 = bigint_rem (pow2 b11 11 * b11) CURVE_P"
  define b44 where "b44 = bigint_rem (pow2 b22 22 * b22) CURVE_P"
  define b88 where "b88 = bigint_rem (pow2 b44 44 * b44) CURVE_P"
  define b176 where "b176 = bigint_rem (pow2 b88 88 * b88) CURVE_P"
  define b220 where "b220 = bigint_rem (pow2 b176 44 * b44) CURVE_P"
  define b223 where "b223 = bigint_rem (pow2 b220 3 * b3) CURVE_P"
  define t1 where "t1 = bigint_rem (pow2 b223 23 * b22) CURVE_P"
  define t2 where "t2 = bigint_rem (pow2 t1 6 * b2) CURVE_P"
  have b2: "b2 = x ^ 3 mod CURVE_P"
    using assms by (simp add: b2_def bigint_rem_P power3_eq_cube)
  have "0 \<le> b2" using CURVE_P_pos by (simp add: b2)
  then have "b3 = (b2 * b2 * x) mod CURVE_P"
    using assms by (simp add: b3_def bigint_rem_P)
  also have "\<dots> = ((x ^ 3 mod CURVE_P) * (x ^ 3 mod CURVE_P) * x) mod CURVE_P"
    by (simp add: b2)
  also have "\<dots> = (x ^ 3 * x ^ 3 * x) mod CURVE_P"
    by (rule mod_mult3)
  also have "x ^ 3 * x ^ 3 * x = x ^ 7"
    by (simp add: power_numeral_reduce)
  finally have b3: "b3 = x ^ 7 mod CURVE_P" .
  have b6: "b6 = x ^ 63 mod CURVE_P"
    unfolding b6_def b3  using sqrtMod_step [OF assms, of 3 7 7] by simp
  have b9: "b9 = x ^ 511 mod CURVE_P"
    unfolding b9_def b6 b3 using sqrtMod_step [OF assms, of 3 63 7] by simp
  have b11: "b11 = x ^ 2047 mod CURVE_P"
    unfolding b11_def b9 b2 using sqrtMod_step [OF assms, of 2 511 3] by simp
  have b22: "b22 = x ^ 4194303 mod CURVE_P"
    unfolding b22_def b11  using sqrtMod_step [OF assms, of 11 2047 2047] by simp
  have b44: "b44 = x ^ 17592186044415 mod CURVE_P"
    unfolding b44_def b22  using sqrtMod_step [OF assms, of 22 4194303 4194303] by simp
  have b88: "b88 = x ^ 309485009821345068724781055 mod CURVE_P"
    unfolding b88_def b44  using sqrtMod_step [OF assms, of 44 17592186044415 17592186044415] by simp
  have b176: "b176 = x ^ 95780971304118053647396689196894323976171195136475135 mod CURVE_P"
    unfolding b176_def b88  using sqrtMod_step [OF assms, of 88 309485009821345068724781055 309485009821345068724781055] by simp
  have b220: "b220 = x ^ 1684996666696914987166688442938726917102321526408785780068975640575 mod CURVE_P"
    unfolding b220_def b176 b44 using sqrtMod_step [OF assms, of 44 95780971304118053647396689196894323976171195136475135 17592186044415] by simp
  have b223: "b223 = x ^ 13479973333575319897333507543509815336818572211270286240551805124607 mod CURVE_P"
    unfolding b223_def b220 b3 using sqrtMod_step [OF assms, of 3 1684996666696914987166688442938726917102321526408785780068975640575 7] by simp
  have t1: "t1 = x ^ 113078212145816597093331040047546785012958969400039613319782796882723471359 mod CURVE_P"
    unfolding t1_def b223 b22 using sqrtMod_step [OF assms, of 23 13479973333575319897333507543509815336818572211270286240551805124607 4194303] by simp
  have t2: "t2 = x ^ 7237005577332262213973186563042994240829374041602535252466099000494302166979 mod CURVE_P"
    unfolding t2_def t1 b2 using sqrtMod_step [OF assms, of 6 113078212145816597093331040047546785012958969400039613319782796882723471359 3] by simp
  have "sqrtMod x = pow2 t2 2"
    by (simp add: sqrtMod_def Let_def b2_def b3_def b6_def b9_def b11_def b22_def b44_def b88_def
        b176_def b220_def b223_def t1_def t2_def)
  also have "\<dots> = (x ^ 7237005577332262213973186563042994240829374041602535252466099000494302166979) ^ (2 ^ 2) mod CURVE_P"
    unfolding t2 using pow2_eq [of "x ^ 7237005577332262213973186563042994240829374041602535252466099000494302166979 mod CURVE_P" 2] CURVE_P_pos by (simp add: power_mod)
  also have "(x ^ 7237005577332262213973186563042994240829374041602535252466099000494302166979) ^ (2 ^ 2) = x ^ 28948022309329048855892746252171976963317496166410141009864396001977208667916"
    by (simp add: power_mult [symmetric])
  finally show ?thesis by (simp only: sqrtMod_exponent)
qed

subsection \<open>The DER form of a signature\<close>

lemma lowerHex_Nil [simp]: "lowerHex []"
  by (simp add: lowerHex_def)

lemma lowerHex_Cons [simp]: "lowerHex (c # s) = (c \<in> hexDigitChar ` {..<16} \<and> lowerHex s)"
  by (simp add: lowerHex_def)

lemma lowerHex_append [simp]: "lowerHex (s @ t) = (lowerHex s \<and> lowerHex t)"
  by (auto simp add: lowerHex_def)

lemma hexDigitChar_mem [simp]: "d < 16 \<Longrightarrow> hexDigitChar d \<in> hexDigitChar ` {..<16}"
  by (rule imageI) simp

lemma toString16_nat_lowerHex: "lowerHex (toString16_nat k)"
proof (induction k rule: toString16_nat.induct)
  case (1 k)
  show ?case
  proof (cases "k < 16")
    case True
    then show ?thesis by (subst toString16_nat.simps) simp
  next
    case False
    have "hexDigitChar (k mod 16) \<in> hexDigitChar ` {..<16}" by simp
    then show ?thesis using 1 False by (subst toString16_nat.simps) simp
  qed
qed

lemma toString16_nat_nonempty: "toString16_nat k \<noteq> []"
  by (subst toString16_nat.simps) simp

lemma toString16_nat_value: "hexValue (toString16_nat k) = k"
proof (induction k rule: toString16_nat.induct)
  case (1 k)
  show ?case
  proof (cases "k < 16")
    case True
    then show ?thesis
      by (subst toString16_nat.simps) (simp add: hexValue_Cons hexDigitVal_hexDigitChar)
  next
    case False
    have "k mod 16 < 16" by simp
    then show ?thesis using 1 False
      by (subst toString16_nat.simps)
        (simp add: hexValue_append hexValue_Cons hexDigitVal_hexDigitChar)
  qed
qed

lemma toString16_nat_hd:
  "0 < k \<Longrightarrow> \<exists>d. 0 < d \<and> d < 16 \<and> hd (toString16_nat k) = hexDigitChar d"
proof (induction k rule: toString16_nat.induct)
  case (1 k)
  show ?case
  proof (cases "k < 16")
    case True
    then have "toString16_nat k = [hexDigitChar k]" by (subst toString16_nat.simps) simp
    then show ?thesis using True 1(2) by (intro exI [of _ k]) simp
  next
    case False
    then have "0 < k div 16" by simp
    from 1(1) [OF False this] obtain d where d: "0 < d" "d < 16" "hd (toString16_nat (k div 16)) = hexDigitChar d"
      by blast
    have "toString16_nat k = toString16_nat (k div 16) @ [hexDigitChar (k mod 16)]"
      using False by (subst toString16_nat.simps) simp
    then show ?thesis using d toString16_nat_nonempty [of "k div 16"]
      by (intro exI [of _ d]) simp
  qed
qed

lemma toString16_nat_length: "0 < m \<Longrightarrow> k < 16 ^ m \<Longrightarrow> length (toString16_nat k) \<le> m"
proof (induction k arbitrary: m rule: toString16_nat.induct)
  case (1 k)
  show ?case
  proof (cases "k < 16")
    case True
    then show ?thesis using 1(2) by (subst toString16_nat.simps) simp
  next
    case False
    obtain j where m: "m = Suc j" using 1(2) by (cases m) simp_all
    have "j \<noteq> 0" using False 1(3) m by (cases j) simp_all
    moreover have "k div 16 < 16 ^ j" using 1(3) m by (simp add: less_mult_imp_div_less mult.commute)
    ultimately have "length (toString16_nat (k div 16)) \<le> j"
      using 1(1) [OF False, of j] by simp
    then show ?thesis using False m by (subst toString16_nat.simps) simp
  qed
qed

lemma numberToHex_props:
  assumes "0 \<le> v"
  shows "lowerHex (numberToHex v)" "even (length (numberToHex v))" "numberToHex v \<noteq> []"
    "int (hexValue (numberToHex v)) = v"
proof -
  have z: "hexDigitChar 0 = CHR ''0''" by (simp add: hexDigitChar_def)
  have lz: "lowerHex [CHR ''0'']" using hexDigitChar_mem [of 0] by (simp add: z)
  show "lowerHex (numberToHex v)"
    using assms toString16_nat_lowerHex [of "nat v"] lz
    by (simp add: numberToHex_def toString16_def Let_def)
  show "even (length (numberToHex v))"
    using assms by (simp add: numberToHex_def toString16_def Let_def)
  show "numberToHex v \<noteq> []"
    using assms toString16_nat_nonempty [of "nat v"]
    by (simp add: numberToHex_def toString16_def Let_def)
  show "int (hexValue (numberToHex v)) = v"
    using assms toString16_nat_value [of "nat v"] hexDigitVal_hexDigitChar [of 0]
    by (simp add: numberToHex_def toString16_def Let_def hexValue_Cons z)
qed

lemma not_isHexDigit_special:
  "\<not> isHexDigit CHR ''-''" "\<not> isHexDigit CHR ''+''" "\<not> isHexDigit CHR ''x''" "\<not> isHexDigit CHR ''X''"
  by (simp_all add: isHexDigit_def hexDigitVal_def)

lemma parseInt16_pair:
  assumes "isHexDigit c1" and "isHexDigit c2"
  shows "parseInt16 [c1, c2] = Some (int (hexValue [c1, c2]))"
proof -
  have 1: "\<not> isWhiteSpace c1" using assms(1) by (rule isHexDigit_not_white)
  have 2: "c1 \<noteq> CHR ''-''" "c1 \<noteq> CHR ''+''" "c2 \<noteq> CHR ''x''" "c2 \<noteq> CHR ''X''"
    using assms not_isHexDigit_special by auto
  show ?thesis
    using assms 1 2 by (simp add: parseInt16_def)
qed

lemma parseInt16_single:
  assumes "isHexDigit c"
  shows "parseInt16 [c] = Some (int (hexValue [c]))"
proof -
  have 1: "\<not> isWhiteSpace c" using assms by (rule isHexDigit_not_white)
  have 2: "c \<noteq> CHR ''-''" "c \<noteq> CHR ''+''"
    using assms not_isHexDigit_special by auto
  show ?thesis
    using assms 1 2 by (simp add: parseInt16_def)
qed

lemma lowerHex_isHexDigit: "lowerHex s \<Longrightarrow> c \<in> set s \<Longrightarrow> isHexDigit c"
  by (auto simp add: lowerHex_def isHexDigit_hexDigitChar)

lemma byte_of_digits:
  assumes "d1 < 16" and "d2 < 16"
  shows "unat (word_of_int (int (16 * d1 + d2)) :: byte) = 16 * d1 + d2"
proof -
  have lt: "16 * d1 + d2 < 2 ^ LENGTH(8)" using assms by simp
  have "(word_of_nat (16 * d1 + d2) :: byte) = word_of_int (int (16 * d1 + d2))"
    by simp
  then show ?thesis by (rule of_nat_inverse) (rule lt)
qed

lemma hexToBytes_loop_lowerHex:
  "lowerHex s \<Longrightarrow> even (length s) \<Longrightarrow> \<exists>bs. hexToBytes_loop s = Inr bs \<and> bytesToHex bs = s"
proof (induction s rule: hexToBytes_loop.induct)
  case (1 c1 c2 rest)
  from 1(2) obtain d1 d2 where d: "d1 < 16" "c1 = hexDigitChar d1" "d2 < 16" "c2 = hexDigitChar d2"
    and rest: "lowerHex rest"
    by auto
  have p: "parseInt16 [c1, c2] = Some (int (16 * d1 + d2))"
    using parseInt16_pair [of c1 c2] d
    by (simp add: isHexDigit_hexDigitChar hexValue_Cons hexDigitVal_hexDigitChar)
  from 1(1) [OF p] rest 1(3) obtain bs where bs: "hexToBytes_loop rest = Inr bs" "bytesToHex bs = rest"
    by auto
  define b :: byte where "b = word_of_int (int (16 * d1 + d2))"
  have "unat b = 16 * d1 + d2" unfolding b_def using d by (intro byte_of_digits)
  then have "bytesToHex (b # bs) = c1 # c2 # rest"
    using d bs by (simp add: bytesToHex_Cons)
  moreover have "hexToBytes_loop (c1 # c2 # rest) = Inr (b # bs)"
    using bs by (simp add: p bindE_def b_def del: of_nat_add of_nat_mult)
  ultimately show ?case by blast
qed simp_all

lemma hexToBytes_lowerHex:
  assumes "lowerHex s" and "even (length s)"
  shows "\<exists>bs. hexToBytes s = Inr bs \<and> bytesToHex bs = s"
  using hexToBytes_loop_lowerHex [OF assms] assms(2) by (simp add: hexToBytes_def even_iff_mod_2_eq_zero)

lemma hexToBytes_loop_append:
  "even (length s) \<Longrightarrow> hexToBytes_loop s = Inr a \<Longrightarrow> hexToBytes_loop t = Inr b \<Longrightarrow>
   hexToBytes_loop (s @ t) = Inr (a @ b)"
proof (induction s arbitrary: a rule: hexToBytes_loop.induct)
  case (1 c1 c2 rest)
  from 1(3) obtain v where v: "parseInt16 [c1, c2] = Some v" "\<not> v < 0"
    by (auto split: option.splits if_splits)
  with 1(3) obtain a' where a': "hexToBytes_loop rest = Inr a'" "a = word_of_int v # a'"
    by (auto simp add: bindE_def split: sum.splits)
  from 1(1) [OF v _ a'(1) 1(4)] 1(2) have "hexToBytes_loop (rest @ t) = Inr (a' @ b)"
    by simp
  then show ?case using v a' by (simp add: bindE_def)
qed simp_all

lemma hexToBytes_append:
  assumes "hexToBytes s = Inr a" and "hexToBytes t = Inr b"
  shows "hexToBytes (s @ t) = Inr (a @ b)"
proof -
  have s: "even (length s)" "hexToBytes_loop s = Inr a"
    using assms(1) by (auto simp add: hexToBytes_def even_iff_mod_2_eq_zero split: if_splits)
  have t: "even (length t)" "hexToBytes_loop t = Inr b"
    using assms(2) by (auto simp add: hexToBytes_def even_iff_mod_2_eq_zero split: if_splits)
  have "length (s @ t) mod 2 = 0" using s(1) t(1) by simp
  then show ?thesis
    using hexToBytes_loop_append [OF s t(2)] by (simp only: hexToBytes_def) simp
qed

lemma bytesToHex_Cons_digits:
  assumes "bytesToHex (b # bs) = c1 # c2 # rest"
  shows "the (hexDigitVal c1) = unat b div 16" "the (hexDigitVal c2) = unat b mod 16"
    "bytesToHex bs = rest"
proof -
  have 1: "unat b div 16 < 16" by (rule unat_byte_div16)
  have 2: "unat b mod 16 < 16" by simp
  from assms have c: "c1 = hexDigitChar (unat b div 16)" "c2 = hexDigitChar (unat b mod 16)"
    and r: "bytesToHex bs = rest"
    by (simp_all add: bytesToHex_Cons)
  show "the (hexDigitVal c1) = unat b div 16"
    using hexDigitVal_hexDigitChar [OF 1] by (simp add: c)
  show "the (hexDigitVal c2) = unat b mod 16"
    using hexDigitVal_hexDigitChar [OF 2] by (simp add: c)
  show "bytesToHex bs = rest" by (rule r)
qed

lemma byte_from_digits:
  assumes "bytesToHex (b # bs) = c1 # c2 # rest"
  shows "unat b = 16 * the (hexDigitVal c1) + the (hexDigitVal c2)"
  using bytesToHex_Cons_digits(1,2) [OF assms] by simp

lemma numberToHex_shape:
  assumes "0 < v"
  shows "\<exists>c1 c2 rest. numberToHex v = c1 # c2 # rest
     \<and> the (hexDigitVal c1) < 16 \<and> isHexDigit c1
     \<and> (the (hexDigitVal c1) \<noteq> 0 \<or> the (hexDigitVal c2) \<noteq> 0)"
proof -
  define t where "t = toString16_nat (nat v)"
  have v: "0 < nat v" using assms by simp
  from toString16_nat_hd [OF v] obtain d where d: "0 < d" "d < 16" "hd t = hexDigitChar d"
    unfolding t_def by blast
  have ne: "t \<noteq> []" unfolding t_def by (rule toString16_nat_nonempty)
  then obtain c ts where t: "t = c # ts" by (cases t) simp_all
  have c: "c = hexDigitChar d" using d(3) t by simp
  have vc: "the (hexDigitVal c) = d" "isHexDigit c"
    using d(2) by (simp_all add: c hexDigitVal_hexDigitChar isHexDigit_hexDigitChar)
  have z: "the (hexDigitVal CHR ''0'') = 0" "isHexDigit CHR ''0''"
    by (simp_all add: hexDigitVal_def isHexDigit_def)
  show ?thesis
  proof (cases "odd (length t)")
    case True
    then have "numberToHex v = CHR ''0'' # c # ts"
      using assms by (simp add: numberToHex_def toString16_def Let_def t_def [symmetric] t)
    then show ?thesis using vc d z by simp
  next
    case False
    then obtain c' ts' where ts: "ts = c' # ts'" using t by (cases ts) simp_all
    have "numberToHex v = c # c' # ts'"
      using assms False by (simp add: numberToHex_def toString16_def Let_def t_def [symmetric] t ts)
    then show ?thesis using vc d by simp
  qed
qed

lemma hexValue_zero_prefix: "hexValue (''00'' @ s) = hexValue s"
  by (simp add: hexValue_Cons hexDigitVal_def)

lemma derInt_bytes:
  assumes "0 < v"
  shows "\<exists>R. hexToBytes (sliceDER (numberToHex v)) = Inr R
     \<and> bytesToHex R = sliceDER (numberToHex v) \<and> bigEndian R = v \<and> derMinimal R"
proof -
  define nh where "nh = numberToHex v"
  have props: "lowerHex nh" "even (length nh)" "int (hexValue nh) = v"
    unfolding nh_def using assms numberToHex_props [of v] by simp_all
  from numberToHex_shape [OF assms] obtain c1 c2 rest
    where nh: "nh = c1 # c2 # rest" and c1: "the (hexDigitVal c1) < 16" "isHexDigit c1"
      and nz: "the (hexDigitVal c1) \<noteq> 0 \<or> the (hexDigitVal c2) \<noteq> 0"
    unfolding nh_def by blast
  define d where "d = the (hexDigitVal c1)"
  have pi: "parseInt16 (take 1 nh) = Some (int d)"
    using parseInt16_single [OF c1(2)] by (simp add: nh hexValue_Cons d_def)
  show ?thesis
  proof (cases "8 \<le> d")
    case True
    have sl: "sliceDER nh = ''00'' @ nh" unfolding sliceDER_def pi using True by simp
    have z: "hexDigitChar 0 = CHR ''0''" by (simp add: hexDigitChar_def)
    have "lowerHex (''00'' @ nh)" "even (length (''00'' @ nh))"
      using props hexDigitChar_mem [of 0] by (simp_all add: z)
    from hexToBytes_lowerHex [OF this] obtain R
      where R: "hexToBytes (''00'' @ nh) = Inr R" "bytesToHex R = ''00'' @ nh"
      by blast
    from R(2) obtain b0 R' where R0: "R = b0 # R'" by (cases R) simp_all
    from R(2) have e0: "bytesToHex (b0 # R') = CHR ''0'' # CHR ''0'' # nh" by (simp add: R0)
    have "unat b0 = 0" using byte_from_digits [OF e0] by (simp add: hexDigitVal_def)
    then have b0: "b0 = 0" by (simp add: unat_eq_0)
    have e1: "bytesToHex R' = c1 # c2 # rest" using bytesToHex_Cons_digits(3) [OF e0] nh by simp
    then obtain b1 R'' where R1: "R' = b1 # R''" by (cases R') simp_all
    have "unat b1 div 16 = d" using bytesToHex_Cons_digits(1) [of b1 R'' c1 c2 rest] e1 R1
      by (simp add: d_def)
    then have "128 \<le> unat b1" using True by simp
    then have b1: "0x80 \<le> b1" by (simp add: word_le_nat_alt)
    have "int (hexValue (bytesToHex R)) = v" using props(3) by (simp only: R(2) hexValue_zero_prefix)
    then have "bigEndian R = v" by (simp add: hexValue_bytesToHex)
    moreover have "derMinimal R" using b0 b1 by (simp add: derMinimal_def R0 R1)
    ultimately show ?thesis using R sl by (auto simp add: nh_def)
  next
    case False
    have sl: "sliceDER nh = nh" unfolding sliceDER_def pi using False by simp
    from hexToBytes_lowerHex [OF props(1,2)] obtain R
      where R: "hexToBytes nh = Inr R" "bytesToHex R = nh"
      by blast
    from R(2) nh obtain b0 R' where R0: "R = b0 # R'" by (cases R) simp_all
    have e0: "bytesToHex (b0 # R') = c1 # c2 # rest" using R(2) nh R0 by simp
    have u: "unat b0 = 16 * d + the (hexDigitVal c2)" "unat b0 div 16 = d"
      using byte_from_digits [OF e0] bytesToHex_Cons_digits(1) [OF e0] by (simp_all add: d_def)
    have "unat b0 \<noteq> 0" using u(1) nz by (simp add: d_def)
    then have nz0: "b0 \<noteq> 0" by (simp add: unat_eq_0)
    have "unat b0 < 128" using u(2) False by simp
    then have lt: "b0 < 0x80" by (simp add: word_less_nat_alt)
    have "int (hexValue (bytesToHex R)) = v" using props(3) by (simp only: R(2))
    then have "bigEndian R = v" by (simp add: hexValue_bytesToHex)
    moreover have "derMinimal R" using nz0 lt by (simp add: derMinimal_def R0)
    ultimately show ?thesis using R sl by (auto simp add: nh_def)
  qed
qed

lemma numberToHex_length:
  assumes "0 \<le> v" and "v < 16 ^ m" and "even m" and "0 < m"
  shows "length (numberToHex v) \<le> m"
proof -
  have "nat v < 16 ^ m" using assms(1,2) by (simp add: nat_less_iff)
  from toString16_nat_length [OF assms(4) this] have l: "length (toString16_nat (nat v)) \<le> m" .
  show ?thesis
  proof (cases "odd (length (toString16_nat (nat v)))")
    case True
    then have "length (toString16_nat (nat v)) \<noteq> m" using assms(3) by auto
    then show ?thesis using l True assms(1) by (simp add: numberToHex_def toString16_def Let_def)
  next
    case False
    then show ?thesis using l assms(1) by (simp add: numberToHex_def toString16_def Let_def)
  qed
qed

lemma sliceDER_length: "length (sliceDER s) \<le> length s + 2"
  by (simp add: sliceDER_def split: option.splits)

lemma derInt_length:
  assumes "0 < v" and "v < 2 ^ 256" and "bytesToHex R = sliceDER (numberToHex v)"
  shows "length R \<le> 33"
proof -
  have "(2 :: int) ^ 256 = 16 ^ 64" by simp
  then have "length (numberToHex v) \<le> 64"
    using numberToHex_length [of v 64] assms(1,2) by simp
  then have "length (sliceDER (numberToHex v)) \<le> 66"
    using sliceDER_length [of "numberToHex v"] by simp
  moreover have "length (sliceDER (numberToHex v)) = 2 * length R"
    using length_bytesToHex [of R] by (simp only: assms(3))
  ultimately show ?thesis by simp
qed

lemma numberToHex_byte:
  assumes "k < 256"
  shows "hexToBytes (numberToHex (int k)) = Inr [word_of_nat k]"
proof -
  define nh where "nh = numberToHex (int k)"
  have props: "lowerHex nh" "even (length nh)" "nh \<noteq> []" "int (hexValue nh) = int k"
    unfolding nh_def using numberToHex_props [of "int k"] by simp_all
  have "int k < 16 ^ 2" using assms by simp
  then have "length nh \<le> 2" unfolding nh_def by (intro numberToHex_length) simp_all
  moreover have "length nh \<noteq> 0" "length nh \<noteq> 1" using props(2,3) by auto
  ultimately have len: "length nh = 2" by linarith
  from hexToBytes_lowerHex [OF props(1,2)] obtain R
    where R: "hexToBytes nh = Inr R" "bytesToHex R = nh"
    by blast
  have "length R = 1" using length_bytesToHex [of R] len by (simp add: R(2))
  then obtain b where b: "R = [b]" by (cases R) simp_all
  have "bigEndian R = int k" using props(4) hexValue_bytesToHex [of R] by (simp add: R(2))
  then have "uint b = int k" by (simp add: b bigEndian_Cons)
  then have "unat b = k" by (simp add: unat_eq_nat_uint)
  then have "b = word_of_nat k" by auto
  then show ?thesis using R(1) by (simp add: b nh_def)
qed

lemma unat_length_byte: "k < 256 \<Longrightarrow> unat (word_of_nat k :: byte) = k"
  by (simp add: unat_of_nat)

lemma hexToBytes_tags: "hexToBytes ''30'' = Inr [0x30]" "hexToBytes ''02'' = Inr [0x02]"
  by (simp_all add: hexToBytes_def parseInt16_def isWhiteSpace_def isHexDigit_def hexDigitVal_def
      hexValue_def bindE_def)

lemma toDERRawBytes_shape:
  assumes "0 < r" "r < 2 ^ 256" "0 < s" "s < 2 ^ 256"
  shows "\<exists>R S L rl sl. toDERRawBytes \<lparr>sig_r = r, sig_s = s\<rparr>
        = Inr ([0x30, L, 0x02, rl] @ R @ [0x02, sl] @ S)
     \<and> unat L = length R + length S + 4 \<and> unat rl = length R \<and> unat sl = length S
     \<and> bigEndian R = r \<and> bigEndian S = s \<and> derMinimal R \<and> derMinimal S
     \<and> length R \<le> 33 \<and> length S \<le> 33"
proof -
  define rHex where "rHex = sliceDER (numberToHex r)"
  define sHex where "sHex = sliceDER (numberToHex s)"
  from derInt_bytes [OF assms(1)] obtain R
    where R: "hexToBytes rHex = Inr R" "bytesToHex R = rHex" "bigEndian R = r" "derMinimal R"
    unfolding rHex_def by blast
  from derInt_bytes [OF assms(3)] obtain S
    where S: "hexToBytes sHex = Inr S" "bytesToHex S = sHex" "bigEndian S = s" "derMinimal S"
    unfolding sHex_def by blast
  have lR: "length R \<le> 33" using derInt_length [OF assms(1,2)] R(2) by (simp add: rHex_def)
  have lS: "length S \<le> 33" using derInt_length [OF assms(3,4)] S(2) by (simp add: sHex_def)
  have hl: "length rHex div 2 = length R" "length sHex div 2 = length S"
    using length_bytesToHex [of R] length_bytesToHex [of S] by (simp_all add: R(2) S(2))
  have n1: "hexToBytes (numberToHex (int (length R))) = Inr [word_of_nat (length R)]"
    using lR by (intro numberToHex_byte) simp
  have n2: "hexToBytes (numberToHex (int (length S))) = Inr [word_of_nat (length S)]"
    using lS by (intro numberToHex_byte) simp
  have n3: "hexToBytes (numberToHex (int (length R + length S + 4)))
      = Inr [word_of_nat (length R + length S + 4)]"
    using lR lS by (intro numberToHex_byte) simp
  have "toDERHex \<lparr>sig_r = r, sig_s = s\<rparr> False
      = ''30'' @ numberToHex (int (length R + length S + 4)) @ ''02''
        @ numberToHex (int (length R)) @ rHex @ ''02'' @ numberToHex (int (length S)) @ sHex"
    by (simp add: toDERHex_def Let_def rHex_def [symmetric] sHex_def [symmetric] hl)
  moreover have "hexToBytes (''30'' @ numberToHex (int (length R + length S + 4)) @ ''02''
        @ numberToHex (int (length R)) @ rHex @ ''02'' @ numberToHex (int (length S)) @ sHex)
      = Inr ([0x30] @ [word_of_nat (length R + length S + 4)] @ [0x02]
             @ [word_of_nat (length R)] @ R @ [0x02] @ [word_of_nat (length S)] @ S)"
    by (intro hexToBytes_append hexToBytes_tags n1 n2 n3 R(1) S(1))
  ultimately have "toDERRawBytes \<lparr>sig_r = r, sig_s = s\<rparr>
        = Inr ([0x30, word_of_nat (length R + length S + 4), 0x02, word_of_nat (length R)] @ R
               @ [0x02, word_of_nat (length S)] @ S)"
    by (simp add: toDERRawBytes_def)
  moreover have "unat (word_of_nat (length R + length S + 4) :: byte) = length R + length S + 4"
    "unat (word_of_nat (length R) :: byte) = length R"
    "unat (word_of_nat (length S) :: byte) = length S"
    using lR lS by (simp_all only: unat_length_byte)
  ultimately show ?thesis using R S lR lS by blast
qed

lemma parseDERInt_ok:
  assumes "derMinimal R" and "unat rl = length R"
  shows "parseDERInt ([0x02, rl] @ R @ rest) = Inr (bigEndian R, rest)"
proof -
  have ne: "R \<noteq> []" using assms(1) by (simp add: derMinimal_def)
  have ok: "\<not> (R ! 0 = 0 \<and> 1 < length R \<and> R ! 1 \<le> 0x7f)"
  proof
    assume a: "R ! 0 = 0 \<and> 1 < length R \<and> R ! 1 \<le> 0x7f"
    then have "0x80 \<le> R ! 1" using assms(1) by (simp add: derMinimal_def)
    then have "128 \<le> unat (R ! 1)" by (simp add: word_le_nat_alt)
    moreover have "unat (R ! 1) \<le> 127" using a by (simp add: word_le_nat_alt)
    ultimately show False by simp
  qed
  show ?thesis
    using ne ok assms(2)
    by (simp add: parseDERInt_def Let_def bytesToNumber_eq bindE_def)
qed

lemma parseDERSignature_ok:
  assumes "derMinimal R" and "derMinimal S"
    and "unat L = length R + length S + 4" and "unat rl = length R" and "unat sl = length S"
  shows "parseDERSignature ([0x30, L, 0x02, rl] @ R @ [0x02, sl] @ S) = Inr (bigEndian R, bigEndian S)"
proof -
  have 1: "parseDERInt ([0x02, rl] @ R @ ([0x02, sl] @ S)) = Inr (bigEndian R, [0x02, sl] @ S)"
    using assms by (intro parseDERInt_ok) simp_all
  have 2: "parseDERInt ([0x02, sl] @ S @ []) = Inr (bigEndian S, [])"
    using assms by (intro parseDERInt_ok) simp_all
  show ?thesis
    using 1 2 assms(3) by (simp add: parseDERSignature_def bindE_def)
qed

lemma CURVE_n_less: "CURVE_n < 2 ^ 256"
  by (simp add: CURVE_n_def POW_2_256_eq)

lemma parseDERSignature_trailing:
  assumes "derMinimal R" and "derMinimal S" and "unat rl = length R" and "unat sl = length S"
    and "extra \<noteq> []"
  shows "isl (parseDERSignature ((0x30 # L' # [0x02, rl] @ R @ [0x02, sl] @ S) @ extra))"
proof -
  have 1: "parseDERInt ([0x02, rl] @ R @ ([0x02, sl] @ S @ extra))
      = Inr (bigEndian R, [0x02, sl] @ S @ extra)"
    using assms by (intro parseDERInt_ok) simp_all
  have 2: "parseDERInt ([0x02, sl] @ S @ extra) = Inr (bigEndian S, extra)"
    using assms by (intro parseDERInt_ok) simp_all
  show ?thesis
    using 1 2 assms(5) by (simp add: parseDERSignature_def bindE_def)
qed

lemma parseDERSignature_rejects:
  "length data < 2 \<or> data ! 0 \<noteq> 0x30 \<Longrightarrow> isl (parseDERSignature data)"
  "unat (data ! 1) \<noteq> length data - 2 \<Longrightarrow> isl (parseDERSignature data)"
  "isl (parseDERInt (drop 2 data)) \<Longrightarrow> isl (parseDERSignature data)"
  "parseDERInt (drop 2 data) = Inr (r, sBytes) \<Longrightarrow> isl (parseDERInt sBytes) \<Longrightarrow>
     isl (parseDERSignature data)"
  "parseDERInt (drop 2 data) = Inr (r, sBytes) \<Longrightarrow> parseDERInt sBytes = Inr (s, left) \<Longrightarrow>
     left \<noteq> [] \<Longrightarrow> isl (parseDERSignature data)"
  by (auto simp add: parseDERSignature_def bindE_def split: sum.splits)

lemma parseDERInt_rejects:
  "length data < 2 \<or> data ! 0 \<noteq> 0x02 \<Longrightarrow> isl (parseDERInt data)"
  "unat (data ! 1) = 0 \<or> length data - 2 < unat (data ! 1) \<Longrightarrow> isl (parseDERInt data)"
  "2 \<le> unat (data ! 1) \<Longrightarrow> 4 \<le> length data \<Longrightarrow> data ! 2 = 0x00 \<Longrightarrow> data ! 3 \<le> 0x7f \<Longrightarrow>
     isl (parseDERInt data)"
  by (auto simp add: parseDERInt_def Let_def bindE_def split: sum.splits)

text \<open>
  Claim C5. For a signature with \<open>0 < r < n\<close> and \<open>0 < s < n\<close>, the bytes of
  \<^verbatim>\<open>toDERHex\<close> are \<^verbatim>\<open>30 L 02 rl R 02 sl S\<close> with the three lengths right, \<open>R\<close> and \<open>S\<close>
  the big-endian bytes of \<open>r\<close> and \<open>s\<close>, each minimal (a leading zero byte exactly when
  the next byte has its top bit set); parsing them, as bytes or as the hexadecimal string,
  gives back \<open>(r, s)\<close>, and encoding the parsed signature gives the same bytes. The
  parser rejects bytes after the second integer, a wrong tag of the sequence or of an
  integer, a length that does not match, and an integer with a zero byte before a byte
  below \<^verbatim>\<open>0x80\<close>.
\<close>

theorem DER_roundtrip_minimal:
  assumes "0 < r" and "r < CURVE_n" and "0 < s" and "s < CURVE_n"
  shows "(\<exists>R S L rl sl bytes.
            bytes = [0x30, L, 0x02, rl] @ R @ [0x02, sl] @ S
          \<and> toDERRawBytes \<lparr>sig_r = r, sig_s = s\<rparr> = Inr bytes
          \<and> unat L = length R + length S + 4 \<and> unat rl = length R \<and> unat sl = length S
          \<and> bigEndian R = r \<and> bigEndian S = s \<and> derMinimal R \<and> derMinimal S
          \<and> parseDERSignature bytes = Inr (r, s)
          \<and> Signature_fromDER (HexBytes bytes) = Inr \<lparr>sig_r = r, sig_s = s\<rparr>
          \<and> Signature_fromDER (HexStr (toDERHex \<lparr>sig_r = r, sig_s = s\<rparr> False))
               = Inr \<lparr>sig_r = r, sig_s = s\<rparr>
          \<and> (\<forall>sg. Signature_fromDER (HexBytes bytes) = Inr sg \<longrightarrow> toDERRawBytes sg = Inr bytes)
          \<and> (\<forall>extra L'. extra \<noteq> [] \<longrightarrow>
                isl (parseDERSignature ((0x30 # L' # drop 2 bytes) @ extra))))
     \<and> (\<forall>data. length data < 2 \<or> data ! 0 \<noteq> 0x30 \<longrightarrow> isl (parseDERSignature data))
     \<and> (\<forall>data. unat (data ! 1) \<noteq> length data - 2 \<longrightarrow> isl (parseDERSignature data))
     \<and> (\<forall>data. isl (parseDERInt (drop 2 data)) \<longrightarrow> isl (parseDERSignature data))
     \<and> (\<forall>data v sBytes. parseDERInt (drop 2 data) = Inr (v, sBytes) \<and> isl (parseDERInt sBytes)
            \<longrightarrow> isl (parseDERSignature data))
     \<and> (\<forall>data. length data < 2 \<or> data ! 0 \<noteq> 0x02 \<longrightarrow> isl (parseDERInt data))
     \<and> (\<forall>data. unat (data ! 1) = 0 \<or> length data - 2 < unat (data ! 1) \<longrightarrow> isl (parseDERInt data))
     \<and> (\<forall>data. 2 \<le> unat (data ! 1) \<and> 4 \<le> length data \<and> data ! 2 = 0x00 \<and> data ! 3 \<le> 0x7f
            \<longrightarrow> isl (parseDERInt data))"
proof -
  have r: "r < 2 ^ 256" and s: "s < 2 ^ 256"
    using assms(2,4) CURVE_n_less by simp_all
  from toDERRawBytes_shape [OF assms(1) r assms(3) s] obtain R S L rl sl
    where raw: "toDERRawBytes \<lparr>sig_r = r, sig_s = s\<rparr> = Inr ([0x30, L, 0x02, rl] @ R @ [0x02, sl] @ S)"
      and len: "unat L = length R + length S + 4" "unat rl = length R" "unat sl = length S"
      and val: "bigEndian R = r" "bigEndian S = s"
      and mini: "derMinimal R" "derMinimal S"
    by blast
  define bytes where "bytes = [0x30, L, 0x02, rl] @ R @ [0x02, sl] @ S"
  have parse: "parseDERSignature bytes = Inr (r, s)"
    unfolding bytes_def using parseDERSignature_ok [OF mini len] by (simp add: val)
  have valid: "new_Signature r s = Inr \<lparr>sig_r = r, sig_s = s\<rparr>"
    using assms
    by (simp add: new_Signature_def Signature_assertValidity_def isWithinCurveOrder_def bindE_def)
  have fromBytes: "Signature_fromDER (HexBytes bytes) = Inr \<lparr>sig_r = r, sig_s = s\<rparr>"
    by (simp add: Signature_fromDER_def bindE_def parse valid)
  have fromHex: "Signature_fromDER (HexStr (toDERHex \<lparr>sig_r = r, sig_s = s\<rparr> False))
      = Inr \<lparr>sig_r = r, sig_s = s\<rparr>"
    using raw parse
    by (simp add: Signature_fromDER_def toDERRawBytes_def bindE_def bytes_def valid)
  have again: "\<forall>sg. Signature_fromDER (HexBytes bytes) = Inr sg \<longrightarrow> toDERRawBytes sg = Inr bytes"
    using raw fromBytes by (auto simp add: bytes_def)
  have trailing: "\<forall>extra L'. extra \<noteq> [] \<longrightarrow>
      isl (parseDERSignature ((0x30 # L' # drop 2 bytes) @ extra))"
    using parseDERSignature_trailing [OF mini len(2,3)] by (simp add: bytes_def)
  have first: "\<exists>R S L rl sl bytes.
            bytes = [0x30, L, 0x02, rl] @ R @ [0x02, sl] @ S
          \<and> toDERRawBytes \<lparr>sig_r = r, sig_s = s\<rparr> = Inr bytes
          \<and> unat L = length R + length S + 4 \<and> unat rl = length R \<and> unat sl = length S
          \<and> bigEndian R = r \<and> bigEndian S = s \<and> derMinimal R \<and> derMinimal S
          \<and> parseDERSignature bytes = Inr (r, s)
          \<and> Signature_fromDER (HexBytes bytes) = Inr \<lparr>sig_r = r, sig_s = s\<rparr>
          \<and> Signature_fromDER (HexStr (toDERHex \<lparr>sig_r = r, sig_s = s\<rparr> False))
               = Inr \<lparr>sig_r = r, sig_s = s\<rparr>
          \<and> (\<forall>sg. Signature_fromDER (HexBytes bytes) = Inr sg \<longrightarrow> toDERRawBytes sg = Inr bytes)
          \<and> (\<forall>extra L'. extra \<noteq> [] \<longrightarrow>
                isl (parseDERSignature ((0x30 # L' # drop 2 bytes) @ extra)))"
    apply (rule exI [of _ R], rule exI [of _ S], rule exI [of _ L], rule exI [of _ rl])
    apply (rule exI [of _ sl], rule exI [of _ bytes])
    apply (insert raw len val mini parse fromBytes fromHex again trailing)
    apply (intro conjI)
                apply (simp_all only: bytes_def [symmetric])
    done
  have g1: "\<forall>data. length data < 2 \<or> data ! 0 \<noteq> 0x30 \<longrightarrow> isl (parseDERSignature data)"
    using parseDERSignature_rejects(1) by blast
  have g2: "\<forall>data. unat (data ! 1) \<noteq> length data - 2 \<longrightarrow> isl (parseDERSignature data)"
    using parseDERSignature_rejects(2) by blast
  have g3: "\<forall>data. isl (parseDERInt (drop 2 data)) \<longrightarrow> isl (parseDERSignature data)"
    using parseDERSignature_rejects(3) by blast
  have g4: "\<forall>data v sBytes. parseDERInt (drop 2 data) = Inr (v, sBytes) \<and> isl (parseDERInt sBytes)
            \<longrightarrow> isl (parseDERSignature data)"
    using parseDERSignature_rejects(4) by blast
  have g5: "\<forall>data. length data < 2 \<or> data ! 0 \<noteq> 0x02 \<longrightarrow> isl (parseDERInt data)"
    using parseDERInt_rejects(1) by blast
  have g6: "\<forall>data. unat (data ! 1) = 0 \<or> length data - 2 < unat (data ! 1) \<longrightarrow> isl (parseDERInt data)"
    using parseDERInt_rejects(2) by blast
  have g7: "\<forall>data. 2 \<le> unat (data ! 1) \<and> 4 \<le> length data \<and> data ! 2 = 0x00 \<and> data ! 3 \<le> 0x7f
            \<longrightarrow> isl (parseDERInt data)"
    using parseDERInt_rejects(3) by blast
  show ?thesis
    by (insert first g1 g2 g3 g4 g5 g6 g7) (intro conjI; assumption)
qed

text \<open>The signature \<open>(1, 255)\<close>, and four byte sequences that the parser rejects.\<close>

theorem DER_roundtrip_minimal_witness:
  "0 < (1 :: int) \<and> 1 < CURVE_n \<and> 0 < (255 :: int) \<and> 255 < CURVE_n
   \<and> Signature_fromDER (HexStr (toDERHex \<lparr>sig_r = 1, sig_s = 255\<rparr> False))
        = Inr \<lparr>sig_r = 1, sig_s = 255\<rparr>
   \<and> isl (parseDERSignature [0x31, 0x06, 0x02, 0x01, 0x01, 0x02, 0x01, 0x01])
   \<and> isl (parseDERSignature [0x30, 0x07, 0x02, 0x01, 0x01, 0x02, 0x01, 0x01])
   \<and> isl (parseDERInt [0x03, 0x01, 0x01])
   \<and> isl (parseDERInt [0x02, 0x02, 0x00, 0x01])"
proof -
  have h: "0 < (1 :: int)" "1 < CURVE_n" "0 < (255 :: int)" "255 < CURVE_n"
    by (simp_all add: CURVE_n_val)
  note t = DER_roundtrip_minimal [OF h]
  from t [THEN conjunct1]
  have 1: "Signature_fromDER (HexStr (toDERHex \<lparr>sig_r = 1, sig_s = 255\<rparr> False))
        = Inr \<lparr>sig_r = 1, sig_s = 255\<rparr>"
    by (elim exE conjE) assumption
  from t [THEN conjunct2, THEN conjunct1, THEN spec, of "[0x31, 0x06, 0x02, 0x01, 0x01, 0x02, 0x01, 0x01]"]
  have 2: "isl (parseDERSignature [0x31, 0x06, 0x02, 0x01, 0x01, 0x02, 0x01, 0x01])"
    by simp
  from t [THEN conjunct2, THEN conjunct2, THEN conjunct1, THEN spec,
      of "[0x30, 0x07, 0x02, 0x01, 0x01, 0x02, 0x01, 0x01]"]
  have 3: "isl (parseDERSignature [0x30, 0x07, 0x02, 0x01, 0x01, 0x02, 0x01, 0x01])"
    by simp
  from t [THEN conjunct2, THEN conjunct2, THEN conjunct2, THEN conjunct2, THEN conjunct2,
      THEN conjunct1, THEN spec, of "[0x03, 0x01, 0x01]"]
  have 4: "isl (parseDERInt [0x03, 0x01, 0x01])"
    by simp
  from t [THEN conjunct2, THEN conjunct2, THEN conjunct2, THEN conjunct2, THEN conjunct2,
      THEN conjunct2, THEN conjunct2, THEN spec, of "[0x02, 0x02, 0x00, 0x01]"]
  have 5: "isl (parseDERInt [0x02, 0x02, 0x00, 0x01])"
    by simp
  show ?thesis using h 1 2 3 4 5 by simp
qed

subsection \<open>Bad hexadecimal input\<close>

text \<open>
  Claim C10 says that every string that is not well-formed hexadecimal (odd length, or a
  character outside 0-9a-fA-F) makes \<^verbatim>\<open>hexToBytes\<close>, reached through \<^verbatim>\<open>ensureBytes\<close>,
  raise. The string \<^verbatim>\<open>1g\<close> has a character that is no hexadecimal digit, and the code
  returns the byte 1 for it: \<^verbatim>\<open>parseInt\<close> reads the digit and ignores what follows.
\<close>

theorem ensureBytes_bad_hex_accepted:
  "\<not> list_all isHexDigit ''1g'' \<and> ensureBytes (HexStr ''1g'') = Inr [0x01]"
  by (simp add: hexToBytes_def parseInt16_def isWhiteSpace_def isHexDigit_def hexDigitVal_def
      hexValue_def bindE_def)

subsection \<open>The range of a Schnorr signature\<close>

text \<open>
  Claim C8, as amended: a 64-byte Schnorr signature is accepted exactly when
  \<open>0 < r < P\<close> and \<open>0 < s < n\<close>, where \<open>r\<close> is the number of its first 32 bytes and
  \<open>s\<close> that of its last 32 bytes; it is then parsed to \<open>(r, s)\<close>, and rejected with
  \<^verbatim>\<open>Invalid signature\<close> otherwise.
\<close>

theorem SchnorrSignature_fromHex_range:
  assumes "length bytes = 64"
  shows "SchnorrSignature_fromHex (HexBytes bytes) =
     (let r = bigEndian (take 32 bytes); s = bigEndian (drop 32 bytes)
      in if 0 < r \<and> r < CURVE_P \<and> 0 < s \<and> s < CURVE_n
         then Inr \<lparr>schnorr_r = r, schnorr_s = s\<rparr>
         else Inl (Error ''Invalid signature''))"
proof -
  have 1: "take 32 bytes \<noteq> []" "take 32 (drop 32 bytes) \<noteq> []"
    using assms by auto
  have 2: "take 32 (drop 32 bytes) = drop 32 bytes"
    using assms by simp
  show ?thesis
    using assms 1
    by (auto simp add: SchnorrSignature_fromHex_def bindE_def bytesToNumber_eq 2 Let_def
        new_SchnorrSignature_def isValidFieldElement_def isWithinCurveOrder_def)
qed

lemma bigEndian_replicate_zero: "bigEndian (replicate k 0) = 0"
  by (induction k) (simp_all add: bigEndian_Cons)

text \<open>Claim C8 as stated admits \<open>r = 0\<close> and \<open>s = 0\<close>; the code rejects the signature
  of 64 zero bytes, whose \<open>r\<close> and \<open>s\<close> are in the ranges of the claim.\<close>

theorem SchnorrSignature_fromHex_zero_rejected:
  "bigEndian (take 32 (replicate 64 0)) \<in> {0 ..< CURVE_P} \<and>
   bigEndian (drop 32 (replicate 64 0)) \<in> {0 ..< CURVE_n} \<and>
   SchnorrSignature_fromHex (HexBytes (replicate 64 0)) = Inl (Error ''Invalid signature'')"
proof -
  have "SchnorrSignature_fromHex (HexBytes (replicate 64 0)) = Inl (Error ''Invalid signature'')"
    by (simp add: SchnorrSignature_fromHex_def bindE_def bytesToNumber_eq bigEndian_replicate_zero
        new_SchnorrSignature_def isValidFieldElement_def isWithinCurveOrder_def)
  then show ?thesis
    by (simp add: bigEndian_replicate_zero CURVE_P_val CURVE_n_val)
qed

text \<open>The signature with \<open>r = 1\<close> and \<open>s = 2\<close> is accepted.\<close>

theorem SchnorrSignature_fromHex_range_witness:
  "length (replicate 31 0 @ [1] @ replicate 31 0 @ [2 :: byte]) = 64 \<and>
   SchnorrSignature_fromHex (HexBytes (replicate 31 0 @ [1] @ replicate 31 0 @ [2])) =
     Inr \<lparr>schnorr_r = 1, schnorr_s = 2\<rparr>"
proof -
  have len: "length (replicate 31 0 @ [1] @ replicate 31 0 @ [2 :: byte]) = 64" by simp
  have r: "bigEndian (take 32 (replicate 31 0 @ [1] @ replicate 31 0 @ [2 :: byte])) = 1"
    by (simp add: bigEndian_append bigEndian_replicate_zero bigEndian_Cons)
  have s: "bigEndian (drop 32 (replicate 31 0 @ [1] @ replicate 31 0 @ [2 :: byte])) = 2"
    by (simp add: bigEndian_append bigEndian_replicate_zero bigEndian_Cons)
  show ?thesis
    using SchnorrSignature_fromHex_range [OF len]
    by (simp only: r s Let_def) (simp add: CURVE_P_val CURVE_n_val)
qed

subsection \<open>Recovery of the public key: a valid hash and signature\<close>

lemma isl_bindE: "isl (bindE m f) = (isl m \<or> (\<exists>v. m = Inr v \<and> isl (f v)))"
  by (cases m) (simp_all add: bindE_def)

lemma truncateHash_one: "truncateHash [1] = Inr 1"
  by (simp add: truncateHash_def bytesToNumber_eq bigEndian_Cons bindE_def CURVE_n_val)

lemma normalizeSignature_one:
  "normalizeSignature (SigObj \<lparr>sig_r = 1, sig_s = 1\<rparr>) = Inr \<lparr>sig_r = 1, sig_s = 1\<rparr>"
  by (simp add: normalizeSignature_def Signature_assertValidity_def isWithinCurveOrder_def
      bindE_def CURVE_n_val)

subsection \<open>Multiplication by one\<close>

lemma CURVE_n_pos: "1 < CURVE_n"
  by (simp add: CURVE_n_val)

lemma CURVE_P_gt1: "1 < CURVE_P"
  by (simp add: CURVE_P_val)

lemma CURVE_G_range: "0 < CURVE_Gx" "CURVE_Gx < CURVE_P" "0 < CURVE_Gy" "CURVE_Gy < CURVE_P"
  "CURVE_Gy + CURVE_Gy < CURVE_P" "even CURVE_Gy" "odd CURVE_P"
  by (simp_all add: CURVE_Gx_def CURVE_Gy_def CURVE_P_val)

lemma modP_id: "0 \<le> a \<Longrightarrow> a < CURVE_P \<Longrightarrow> modP a = a"
  using CURVE_P_pos by (simp add: mod_js_pos)

lemma modP_range: "0 \<le> modP a" "modP a < CURVE_P"
  using CURVE_P_pos by (simp_all add: mod_js_pos)

lemma USE_ENDOMORPHISM_True [simp]: "USE_ENDOMORPHISM"
  by (simp add: USE_ENDOMORPHISM_def CURVE_a_def)

lemma splitScalarEndo_one:
  "splitScalarEndo 1 = Inr \<lparr>k1neg = False, k1 = 1, k2neg = False, k2 = 0\<rparr>"
proof -
  have d1: "divNearest (0x3086d221a7d46bcde86c90e49284eb15 * 1) CURVE_n = 0"
    by (simp add: divNearest_def bigint_div_def CURVE_n_val)
  have d2: "divNearest (- (- 1 * 0xe4437ed6010e88286f547fa90abfe4c3) * 1) CURVE_n = 0"
    by (simp add: divNearest_def bigint_div_def CURVE_n_val)
  have m: "mod_js 1 CURVE_n = 1" "mod_js 0 CURVE_n = 0"
    using CURVE_n_pos by (simp_all add: mod_js_pos)
  have p: "\<not> 1 > POW_2_128" "\<not> 0 > POW_2_128"
    by (simp_all add: POW_2_128_def pow_eq)
  show ?thesis
    unfolding splitScalarEndo_def Let_def d1 d2
    using m p by simp
qed

lemma pow_two: "pow a 2 = a * a"
  by (simp add: pow_eq power2_eq_square)

lemma toAffine_with_one:
  "normalized q \<Longrightarrow> fromAffine (toAffine_with q 1) = q"
  by (simp add: normalized_def toAffine_with_def fromAffine_def new_Point_def pow_two modP_id)

lemma inverse_of_one:
  assumes "(y * 1) mod CURVE_P = 1 mod CURVE_P" and "0 \<le> y" and "y < CURVE_P"
  shows "y = 1"
  using assms CURVE_P_gt1 by simp

lemma normalizeZ_nth:
  assumes "normalizeZ ps = Inr qs" and "i < length ps" and "normalized (ps ! i)"
  shows "i < length qs \<and> qs ! i = ps ! i"
proof -
  from assms(1) obtain toInv where inv: "invertBatch (map jz ps) CURVE_P = Inr toInv"
    and qs: "qs = map fromAffine (map (\<lambda>(p, i). toAffine_with p i) (zip ps toInv))"
    by (auto simp add: normalizeZ_def toAffineBatch_def bindE_def split: sum.splits)
  note props = invertBatch_Inr [OF inv]
  have len: "length toInv = length ps" using props by simp
  have z: "map jz ps ! i = 1" using assms(2,3) by (simp add: normalized_def)
  have "toInv ! i = 1"
    using props assms(2) z by (intro inverse_of_one) auto
  then show ?thesis
    using assms(2,3) len by (simp add: qs toAffine_with_one)
qed

lemma JacobianPoint_add_ZERO_left:
  "normalized q \<Longrightarrow> JacobianPoint_add JacobianPoint_ZERO q = q"
  by (simp add: JacobianPoint_add_def JacobianPoint_ZERO_def normalized_def Let_def)

lemma JacobianPoint_add_x0_right:
  "jx other = 0 \<Longrightarrow> JacobianPoint_add q other = q"
  by (simp add: JacobianPoint_add_def Let_def)

lemma wNAF_loop_zero:
  "wNAF_loop rounds window W precomputes 0 p f = Inr (p', f') \<Longrightarrow> p' = p"
proof (induction rounds arbitrary: window f)
  case 0
  then show ?case by simp
next
  case (Suc rounds)
  have "\<not> (0 :: int) > 2 ^ (W - 1)"
    by (simp add: not_less)
  with Suc.prems obtain pr where
    "wNAF_loop rounds (Suc window) W precomputes 0 p
       (JacobianPoint_add f (if odd window then JacobianPoint_negate pr else pr)) = Inr (p', f')"
    by (auto simp add: Let_def bindE_def split: sum.splits)
  then show ?case by (rule Suc.IH)
qed

lemma and_one_mask: "0 < W \<Longrightarrow> (1 :: int) AND (2 ^ W - 1) = 1"
proof -
  assume "0 < W"
  then have "odd ((2 :: int) ^ W - 1)" by simp
  then have "((2 :: int) ^ W - 1) mod 2 = 1" by (simp only: odd_iff_mod_2_eq_one)
  then have "((2 :: int) ^ W - 1) AND 1 = 1" by (simp only: and_one_eq)
  then show ?thesis by (simp only: and.commute)
qed

lemma wNAF_loop_step_one:
  assumes "0 < W"
  shows "wNAF_loop (Suc rounds) window W precomputes 1 p f
     = bindE (precomputes_at precomputes (window * 2 ^ (W - 1)))
         (\<lambda>cached. wNAF_loop rounds (Suc window) W precomputes 0 (JacobianPoint_add p cached) f)"
proof -
  have 1: "(1 :: int) AND (2 ^ W - 1) = 1" using assms by (rule and_one_mask)
  have 2: "drop_bit W (1 :: int) = 0" using assms by (simp add: drop_bit_eq_div)
  have 3: "\<not> (1 :: int) > 2 ^ (W - 1)" by (simp add: not_less)
  show ?thesis
    unfolding wNAF_loop.simps Let_def 1 2 using 3 by simp
qed

lemma wNAF_loop_one:
  assumes "0 < W" and "wNAF_loop (Suc rounds) 0 W precomputes 1 JacobianPoint_ZERO f = Inr (p', f')"
    and "0 < length precomputes \<longrightarrow> normalized (precomputes ! 0)"
  shows "0 < length precomputes \<and> p' = precomputes ! 0"
proof -
  note step = assms(2) [unfolded wNAF_loop_step_one [OF assms(1)]]
  from step have len: "0 < length precomputes"
    by (auto simp add: bindE_def precomputes_at_def split: if_splits)
  with step have
    "wNAF_loop rounds (Suc 0) W precomputes 0
       (JacobianPoint_add JacobianPoint_ZERO (precomputes ! 0)) f = Inr (p', f')"
    by (simp add: bindE_def precomputes_at_def)
  then have "p' = JacobianPoint_add JacobianPoint_ZERO (precomputes ! 0)"
    by (rule wNAF_loop_zero)
  then show ?thesis using len assms(3) by (simp add: JacobianPoint_add_ZERO_left)
qed

lemma windows_Suc: "\<exists>k. windows W = Suc k"
  by (simp add: windows_def Let_def)

lemma precomputeWindow_hd: "\<exists>rest. precomputeWindow this W = this # rest"
proof -
  obtain k where k: "windows W = Suc k" using windows_Suc by blast
  show ?thesis by (simp add: precomputeWindow_def k split_beta Let_def)
qed

lemma wNAF_unfold:
  assumes "wNAF this n ap = Inr (p, f)"
  shows "\<exists>W pre. 0 < W
     \<and> (pre = precomputeWindow this W \<or> normalizeZ (precomputeWindow this W) = Inr pre)
     \<and> wNAF_loop (windows W) 0 W pre n JacobianPoint_ZERO JacobianPoint_ZERO = Inr (p, f)"
proof -
  define ap' where "ap' = (if ap = None \<and> JacobianPoint_equals this JacobianPoint_BASE
             then Some Point_BASE else ap)"
  define W where "W = (case ap' of
                 None \<Rightarrow> 1
               | Some a \<Rightarrow> (case WINDOW_SIZE a of None \<Rightarrow> 1 | Some w \<Rightarrow> if w = 0 then 1 else w))"
  have W: "0 < W" by (simp add: W_def split: option.splits)
  define pre where "pre = (if ap' \<noteq> None \<and> W \<noteq> 1 then normalizeZ (precomputeWindow this W)
                     else Inr (precomputeWindow this W))"
  have eq: "wNAF this n ap = (if 256 mod W \<noteq> 0
         then Inl (Error ''Point#wNAF: Invalid precomputation window, must be power of 2'')
         else bindE pre (\<lambda>precomputes. wNAF_loop (windows W) 0 W precomputes n
                                JacobianPoint_ZERO JacobianPoint_ZERO))"
    by (simp add: wNAF_def Let_def ap'_def [symmetric] W_def [symmetric] pre_def)
  from assms obtain tbl where tbl: "pre = Inr tbl"
    and loop: "wNAF_loop (windows W) 0 W tbl n JacobianPoint_ZERO JacobianPoint_ZERO = Inr (p, f)"
    unfolding eq by (auto simp add: bindE_def split: if_splits sum.splits)
  have "tbl = precomputeWindow this W \<or> normalizeZ (precomputeWindow this W) = Inr tbl"
    using tbl by (auto simp add: pre_def split: if_splits)
  then show ?thesis using W loop by blast
qed

lemma wNAF_zero:
  assumes "wNAF this 0 ap = Inr (p, f)"
  shows "p = JacobianPoint_ZERO"
proof -
  from wNAF_unfold [OF assms] obtain W pre
    where "wNAF_loop (windows W) 0 W pre 0 JacobianPoint_ZERO JacobianPoint_ZERO = Inr (p, f)"
    by blast
  then show ?thesis by (rule wNAF_loop_zero)
qed

lemma wNAF_one:
  assumes "normalized this" and "wNAF this 1 ap = Inr (p, f)"
  shows "p = this"
proof -
  from wNAF_unfold [OF assms(2)] obtain W pre
    where W: "0 < W"
      and pre: "pre = precomputeWindow this W \<or> normalizeZ (precomputeWindow this W) = Inr pre"
      and loop: "wNAF_loop (windows W) 0 W pre 1 JacobianPoint_ZERO JacobianPoint_ZERO = Inr (p, f)"
    by blast
  obtain rest where tbl: "precomputeWindow this W = this # rest"
    using precomputeWindow_hd by blast
  have first: "0 < length pre \<longrightarrow> pre ! 0 = this"
  proof (cases "pre = precomputeWindow this W")
    case True
    then show ?thesis by (simp add: tbl)
  next
    case False
    with pre have "normalizeZ (precomputeWindow this W) = Inr pre" by simp
    from normalizeZ_nth [OF this, of 0] assms(1) show ?thesis by (simp add: tbl)
  qed
  obtain k where k: "windows W = Suc k" using windows_Suc by blast
  from wNAF_loop_one [OF W loop [unfolded k]] first assms(1)
  show ?thesis by auto
qed

lemma normalizeScalar_one: "normalizeScalar 1 = Inr 1"
  using CURVE_n_pos by (simp add: normalizeScalar_def isWithinCurveOrder_def)

lemma multiply_one:
  assumes "normalized this" and "multiply this 1 ap = Inr res"
  shows "res = this"
proof -
  from assms(2) obtain k1p f1p k2p f2p ps
    where w1: "wNAF this 1 ap = Inr (k1p, f1p)" and w2: "wNAF this 0 ap = Inr (k2p, f2p)"
      and nz: "normalizeZ [JacobianPoint_add k1p
                  \<lparr>jx = modP (jx k2p * CURVE_beta), jy = jy k2p, jz = jz k2p\<rparr>,
                JacobianPoint_add f1p f2p] = Inr ps"
      and res: "res = hd ps"
    by (auto simp add: multiply_def normalizeScalar_one splitScalarEndo_one bindE_def Let_def
        split: sum.splits)
  have k1p: "k1p = this" using wNAF_one [OF assms(1) w1] .
  have k2p: "k2p = JacobianPoint_ZERO" using wNAF_zero [OF w2] .
  have z: "modP 0 = 0" using CURVE_P_pos by (simp add: mod_js_pos)
  have point: "JacobianPoint_add k1p \<lparr>jx = modP (jx k2p * CURVE_beta), jy = jy k2p, jz = jz k2p\<rparr> = this"
    by (rule trans [OF JacobianPoint_add_x0_right]) (simp_all add: k1p k2p JacobianPoint_ZERO_def z)
  from normalizeZ_nth [OF nz, of 0] assms(1) have "0 < length ps \<and> ps ! 0 = this"
    by (simp add: point)
  then show ?thesis by (cases ps) (simp_all add: res)
qed

lemma multiplyUnsafe_loop_one:
  "multiplyUnsafe_loop 1 0 d JacobianPoint_ZERO JacobianPoint_ZERO
     = (JacobianPoint_add JacobianPoint_ZERO d, JacobianPoint_ZERO)"
proof -
  have "multiplyUnsafe_loop 1 0 d JacobianPoint_ZERO JacobianPoint_ZERO
      = multiplyUnsafe_loop 0 0 (JacobianPoint_double d)
          (JacobianPoint_add JacobianPoint_ZERO d) JacobianPoint_ZERO"
    by (subst multiplyUnsafe_loop.simps) (simp add: drop_bit_eq_div)
  also have "\<dots> = (JacobianPoint_add JacobianPoint_ZERO d, JacobianPoint_ZERO)"
    by (subst multiplyUnsafe_loop.simps) simp
  finally show ?thesis .
qed

lemma multiplyUnsafe_one:
  assumes "normalized this"
  shows "multiplyUnsafe this 1 = Inr this"
proof -
  have z: "modP 0 = 0" using CURVE_P_pos by (simp add: mod_js_pos)
  have "JacobianPoint_add this \<lparr>jx = modP (jx JacobianPoint_ZERO * CURVE_beta),
      jy = jy JacobianPoint_ZERO, jz = jz JacobianPoint_ZERO\<rparr> = this"
    by (rule JacobianPoint_add_x0_right) (simp add: JacobianPoint_ZERO_def z)
  then show ?thesis
    using assms
    by (simp add: multiplyUnsafe_def normalizeScalar_one splitScalarEndo_one bindE_def
        multiplyUnsafe_loop_one JacobianPoint_add_ZERO_left)
qed

subsection \<open>Verification when the computed point is the identity\<close>

lemma mod_certificate: "a = q * m + r \<Longrightarrow> 0 \<le> r \<Longrightarrow> r < m \<Longrightarrow> a mod m = (r :: int)"
  by (simp add: mod_pos_pos_trivial)

lemmas numeral_arith =
  numeral_times_numeral numeral_plus_numeral mult_num_simps add_num_simps
  Num.add_One Num.add_One_commute Num.add_inc Num.inc.simps Num.BitM.simps

lemma Gx_square: "(CURVE_Gx * CURVE_Gx) mod CURVE_P = 60300556597753154781239923047219078515410877540607532238537983597388018023497"
proof (rule mod_certificate [where q = 26187396247976283472853352193639785130011348079443841416178081230925261213881])
  show "CURVE_Gx * CURVE_Gx = 26187396247976283472853352193639785130011348079443841416178081230925261213881 * CURVE_P + 60300556597753154781239923047219078515410877540607532238537983597388018023497"
    unfolding CURVE_Gx_def CURVE_P_val by (simp only: numeral_arith)
qed (simp_all add: CURVE_P_val)

lemma Gx_cube: "(60300556597753154781239923047219078515410877540607532238537983597388018023497 * CURVE_Gx) mod CURVE_P = 32748224938747404814623910738487752935528512903530129802856995983256684603115"
proof (rule mod_certificate [where q = 28676624904799576878370641386091001092335193693854522746901794248340229297955])
  show "60300556597753154781239923047219078515410877540607532238537983597388018023497 * CURVE_Gx = 28676624904799576878370641386091001092335193693854522746901794248340229297955 * CURVE_P + 32748224938747404814623910738487752935528512903530129802856995983256684603115"
    unfolding CURVE_Gx_def CURVE_P_val by (simp only: numeral_arith)
qed (simp_all add: CURVE_P_val)

lemma Gy_square: "(CURVE_Gy * CURVE_Gy) mod CURVE_P = 32748224938747404814623910738487752935528512903530129802856995983256684603122"
proof (rule mod_certificate [where q = 9217920084583157935602994580951900810186344190718383666107426471107247357458])
  show "CURVE_Gy * CURVE_Gy = 9217920084583157935602994580951900810186344190718383666107426471107247357458 * CURVE_P + 32748224938747404814623910738487752935528512903530129802856995983256684603122"
    unfolding CURVE_Gy_def CURVE_P_val by (simp only: numeral_arith)
qed (simp_all add: CURVE_P_val)

lemma weistrass_Gx: "weistrass CURVE_Gx = 32748224938747404814623910738487752935528512903530129802856995983256684603122"
  using CURVE_P_pos
  by (simp add: weistrass_def Let_def mod_js_pos Gx_square Gx_cube CURVE_a_def CURVE_b_def)
    (simp add: CURVE_P_val)

lemma bindE_Inr [simp]: "bindE (Inr v) f = f v"
  by (simp add: bindE_def)

lemma bindE_Inl [simp]: "bindE (Inl e) f = Inl e"
  by (simp add: bindE_def)

lemma neg_square_mod: "((m - a) * (m - a)) mod m = (a * a) mod (m :: int)"
proof -
  have "(m - a) mod m = (- a) mod m"
    using mod_add_self1 [of m "- a"] by simp
  then have "((m - a) * (m - a)) mod m = ((- a) * (- a)) mod m"
    by (rule mod_mult_cong) (rule \<open>(m - a) mod m = (- a) mod m\<close>)
  then show ?thesis by simp
qed

lemma assertValidity_negG: "assertValidity negG = Inr ()"
proof -
  have r: "isValidFieldElement CURVE_Gx" "isValidFieldElement (CURVE_P - CURVE_Gy)"
    using CURVE_G_range by (simp_all add: isValidFieldElement_def)
  have left: "modP ((CURVE_P - CURVE_Gy) * (CURVE_P - CURVE_Gy)) = 32748224938747404814623910738487752935528512903530129802856995983256684603122"
    using CURVE_P_pos by (simp add: mod_js_pos neg_square_mod Gy_square)
  have z: "modP 0 = 0" using CURVE_P_pos by (simp add: mod_js_pos)
  show ?thesis
    unfolding assertValidity_def negG_def Let_def
    using r by (simp add: left weistrass_Gx z)
qed

lemma normalized_BASE: "normalized JacobianPoint_BASE"
  using CURVE_G_range by (simp add: normalized_def JacobianPoint_BASE_def)

lemma normalized_negG: "normalized (fromAffine negG)"
  using CURVE_G_range by (simp add: normalized_def fromAffine_def negG_def)

lemma add_BASE_negG: "JacobianPoint_add JacobianPoint_BASE (fromAffine negG) = JacobianPoint_ZERO"
proof -
  have 1: "modP 1 = 1" "modP 0 = 0" "modP CURVE_Gx = CURVE_Gx" "modP CURVE_Gy = CURVE_Gy"
    "modP (CURVE_P - CURVE_Gy) = CURVE_P - CURVE_Gy"
    "modP (CURVE_P - 2 * CURVE_Gy) = CURVE_P - 2 * CURVE_Gy"
    using CURVE_G_range CURVE_P_gt1 by (simp_all add: modP_id)
  have 2: "CURVE_Gx \<noteq> 0" "CURVE_Gy \<noteq> 0" "CURVE_P - CURVE_Gy \<noteq> 0"
    "CURVE_P - CURVE_Gy - CURVE_Gy \<noteq> 0"
    using CURVE_G_range by simp_all
  show ?thesis
    unfolding JacobianPoint_add_def JacobianPoint_BASE_def fromAffine_def negG_def Let_def
    using 2 by (simp add: pow_two 1)
qed

lemma toAffine_ZERO: "toAffine JacobianPoint_ZERO = Inl (Error ''invert: expected positive integers'')"
  by (simp add: toAffine_def invert_def JacobianPoint_ZERO_def)

lemma invert_one: "invert 1 CURVE_n = Inr 1"
proof -
  from invert_coprime [of CURVE_n 1] CURVE_n_pos obtain y where y: "invert 1 CURVE_n = Inr y"
    by auto
  from invert_Inr [OF y] CURVE_n_pos have "y = 1" by (auto simp add: mod_pos_pos_trivial)
  then show ?thesis using y by simp
qed

lemma hash_one: "truncateHash (replicate 31 0 @ [1]) = Inr 1"
proof -
  have "bigEndian (replicate 31 0 @ [1 :: byte]) = 1"
    by (simp add: bigEndian_append bigEndian_replicate_zero bigEndian_Cons)
  then show ?thesis
    using CURVE_n_pos by (simp add: truncateHash_def bytesToNumber_eq Let_def)
qed

lemma hasHighS_one: "\<not> hasHighS \<lparr>sig_r = 1, sig_s = 1\<rparr>"
  by (simp add: hasHighS_def Let_def CURVE_n_val drop_bit_eq_div)

text \<open>
  Claim C2 says that \<^verbatim>\<open>verify\<close> never raises and returns \<^verbatim>\<open>false\<close> when the point
  \<open>R = u1 G + u2 P\<close> is the identity. With the signature \<open>(1, 1)\<close>, the hash 1 and the
  public key \<open>- G\<close>, both scalars are 1 and \<open>R = G - G\<close>: the addition returns
  \<^verbatim>\<open>JacobianPoint.ZERO\<close>, and \<^verbatim>\<open>toAffine\<close>, which is outside the \<^verbatim>\<open>try\<close> blocks, raises
  from \<^verbatim>\<open>invert(0)\<close>.
\<close>

theorem verify_raises_at_identity:
  "isl (verify (SigObj \<lparr>sig_r = 1, sig_s = 1\<rparr>) (HexBytes (replicate 31 0 @ [1]))
         (PubPoint \<lparr>px = CURVE_Gx, py = CURVE_P - CURVE_Gy, WINDOW_SIZE = None\<rparr>) True)"
proof -
  have m: "mod_js 1 CURVE_n = 1" using CURVE_n_pos by (simp add: mod_js_pos)
  have pk: "normalizePublicKey (PubPoint negG) = Inr negG"
    by (simp add: normalizePublicKey_def assertValidity_negG)
  have eq: "verify (SigObj \<lparr>sig_r = 1, sig_s = 1\<rparr>) (HexBytes (replicate 31 0 @ [1])) (PubPoint negG) True
      = bindE (multiply JacobianPoint_BASE 1 None) (\<lambda>Ghs1.
          bindE (toAffine (JacobianPoint_add Ghs1 (fromAffine negG))) (\<lambda>R.
            Inr (mod_js (px R) CURVE_n = 1)))"
    using hasHighS_one
    by (simp add: verify_def normalizeSignature_one hash_one pk invert_one m Let_def
        multiplyUnsafe_one [OF normalized_negG])
  have "isl (verify (SigObj \<lparr>sig_r = 1, sig_s = 1\<rparr>) (HexBytes (replicate 31 0 @ [1])) (PubPoint negG) True)"
  proof (cases "multiply JacobianPoint_BASE 1 None")
    case (Inl e)
    then show ?thesis by (simp add: eq)
  next
    case (Inr res)
    then have "res = JacobianPoint_BASE" using multiply_one [OF normalized_BASE] by simp
    then show ?thesis using Inr by (simp add: eq add_BASE_negG toAffine_ZERO)
  qed
  then show ?thesis by (simp add: negG_def)
qed

subsection \<open>Schnorr verification when the computed point is the identity\<close>

lemma bigEndian_GxBytes: "bigEndian GxBytes = CURVE_Gx"
  by (simp add: GxBytes_def bigEndian_Cons CURVE_Gx_def)

lemma bigEndian_oneBytes: "bigEndian oneBytes = 1"
  by (simp add: oneBytes_def bigEndian_append bigEndian_replicate_zero bigEndian_Cons)

lemma sqrtMod_range: "0 \<le> x \<Longrightarrow> 0 \<le> sqrtMod x \<and> sqrtMod x < CURVE_P"
  using CURVE_P_pos by (simp add: sqrtMod_eq_power)

lemma publicKey_Gx:
  assumes "normalizePublicKey (PubHex (HexBytes GxBytes)) = Inr P"
  shows "\<exists>y. P = new_Point CURVE_Gx y \<and> 0 < y \<and> y < CURVE_P \<and> even y"
proof -
  define y0 where "y0 = sqrtMod (weistrass CURVE_Gx)"
  define y where "y = (if y0 AND 1 = 1 then modP (- y0) else y0)"
  have len: "length GxBytes = 32" "GxBytes \<noteq> []" by (simp_all add: GxBytes_def)
  have x: "bytesToNumber GxBytes = Inr CURVE_Gx"
    using len by (simp add: bytesToNumber_eq bigEndian_GxBytes)
  have v: "isValidFieldElement CURVE_Gx"
    using CURVE_G_range by (simp add: isValidFieldElement_def)
  have eq: "normalizePublicKey (PubHex (HexBytes GxBytes))
      = bindE (assertValidity (new_Point CURVE_Gx y)) (\<lambda>_. Inr (new_Point CURVE_Gx y))"
    using len v
    by (simp add: normalizePublicKey_def Point_fromHex_def fromCompressedHex_def x Let_def
        y_def y0_def)
  from assms have P: "P = new_Point CURVE_Gx y" and ok: "assertValidity (new_Point CURVE_Gx y) = Inr ()"
    unfolding eq by (auto simp add: bindE_def split: sum.splits)
  from ok have range: "0 < y" "y < CURVE_P"
    by (auto simp add: assertValidity_def new_Point_def isValidFieldElement_def Let_def
        split: if_splits)
  have y0: "0 \<le> y0" "y0 < CURVE_P"
    unfolding y0_def using sqrtMod_range [of "weistrass CURVE_Gx"] by (simp_all add: weistrass_Gx)
  have "even y"
  proof (cases "odd y0")
    case True
    then have "y0 AND 1 = 1" by (simp add: and_one_eq odd_iff_mod_2_eq_one)
    then have "y = (- y0) mod CURVE_P" using CURVE_P_pos by (simp add: y_def mod_js_pos)
    also have "\<dots> = CURVE_P - y0"
      using y0 True zmod_zminus1_eq_if [of y0 CURVE_P] by (auto simp add: mod_pos_pos_trivial)
    finally show ?thesis using True CURVE_G_range(7) by simp
  next
    case False
    then have "y0 AND 1 \<noteq> 1" by (simp add: and_one_eq)
    then show ?thesis using False by (simp add: y_def)
  qed
  then show ?thesis using P range by blast
qed

lemma createChallenge_const:
  assumes "createChallenge constSha x P m = Inr e"
  shows "e = 1"
proof -
  have ne: "oneBytes \<noteq> []" by (simp add: oneBytes_def)
  have "taggedHash constSha tag ms = Inr 1" for tag ms
    using ne by (simp add: taggedHash_def constSha_def Let_def bytesToNumber_eq bigEndian_oneBytes)
  moreover have "mod_js 1 CURVE_n = 1" using CURVE_n_pos by (simp add: mod_js_pos)
  ultimately show ?thesis
    using assms by (auto simp add: createChallenge_def bindE_def split: sum.splits)
qed

lemma invert_one_P: "invert 1 CURVE_P = Inr 1"
proof -
  from invert_coprime [of CURVE_P 1] CURVE_P_gt1 obtain y where y: "invert 1 CURVE_P = Inr y"
    by auto
  from invert_Inr [OF y] CURVE_P_gt1 have "y = 1" by (auto simp add: mod_pos_pos_trivial)
  then show ?thesis using y by simp
qed

lemma toAffine_normalized:
  "normalized q \<Longrightarrow> toAffine q = Inr (new_Point (jx q) (jy q))"
  by (simp add: toAffine_def normalized_def invert_one_P toAffine_with_def pow_two modP_id)

lemma Point_multiply_one:
  assumes "normalized (fromAffine p)" and "Point_multiply p 1 = Inr res"
  shows "res = new_Point (px p) (py p)"
proof -
  from assms(2) obtain q where q: "multiply (fromAffine p) 1 (Some p) = Inr q" and r: "toAffine q = Inr res"
    by (auto simp add: Point_multiply_def bindE_def split: sum.splits)
  have "q = fromAffine p" using multiply_one [OF assms(1) q] .
  then show ?thesis using r toAffine_normalized [OF assms(1)] by (simp add: fromAffine_def)
qed

lemma fromPrivateKey_one:
  assumes "fromPrivateKey (PrivBigint 1) = Inr sG"
  shows "sG = new_Point CURVE_Gx CURVE_Gy"
proof -
  have "normalizePrivateKey (PrivBigint 1) = Inr 1"
    using CURVE_n_pos by (simp add: normalizePrivateKey_def isWithinCurveOrder_def)
  then have m: "Point_multiply Point_BASE 1 = Inr sG"
    using assms by (simp add: fromPrivateKey_def)
  have "normalized (fromAffine Point_BASE)"
    using normalized_BASE by (simp add: fromAffine_def Point_BASE_def JacobianPoint_BASE_def)
  from Point_multiply_one [OF this m] show ?thesis by (simp add: Point_BASE_def)
qed

lemma subtract_same_x:
  assumes "0 < y" and "y < CURVE_P" and "even y"
  shows "Point_subtract (new_Point CURVE_Gx CURVE_Gy) (new_Point CURVE_Gx y)
     = Inl (Error ''invert: expected positive integers'')"
proof -
  have ny: "modP (- y) = CURVE_P - y"
    using assms zmod_zminus1_eq_if [of y CURVE_P] CURVE_P_pos
    by (auto simp add: mod_js_pos mod_pos_pos_trivial)
  have 1: "modP 1 = 1" "modP 0 = 0" "modP CURVE_Gx = CURVE_Gx" "modP CURVE_Gy = CURVE_Gy"
    "modP (CURVE_P - y) = CURVE_P - y"
    using CURVE_G_range CURVE_P_gt1 assms by (simp_all add: modP_id)
  have "\<not> CURVE_P dvd (y + CURVE_Gy)"
  proof
    assume "CURVE_P dvd (y + CURVE_Gy)"
    then obtain k where k: "y + CURVE_Gy = CURVE_P * k" by (auto simp add: dvd_def)
    have "0 < y + CURVE_Gy" "y + CURVE_Gy < CURVE_P * 2"
      using assms CURVE_G_range by linarith+
    then have "0 < CURVE_P * k" "CURVE_P * k < CURVE_P * 2"
      by (simp_all only: k)
    then have "0 < k" "k < 2"
      using CURVE_P_pos by (simp_all add: zero_less_mult_iff mult_less_cancel_left_pos)
    then have "k = 1" by simp
    then have "odd (y + CURVE_Gy)" using k CURVE_G_range(7) by simp
    then show False using assms(3) CURVE_G_range(6) by simp
  qed
  moreover have "CURVE_P dvd (y + CURVE_Gy)" if d: "CURVE_P dvd (CURVE_P - y - CURVE_Gy)"
  proof -
    have "CURVE_P dvd (CURVE_P - (CURVE_P - y - CURVE_Gy))"
      using dvd_refl d by (rule dvd_diff)
    moreover have "CURVE_P - (CURVE_P - y - CURVE_Gy) = y + CURVE_Gy" by simp
    ultimately show ?thesis by simp
  qed
  ultimately have "\<not> CURVE_P dvd (CURVE_P - y - CURVE_Gy)"
    by blast
  then have r: "modP (CURVE_P - y - CURVE_Gy) \<noteq> 0"
    using CURVE_P_pos by (simp add: mod_js_pos dvd_eq_mod_eq_0)
  have 2: "CURVE_Gx \<noteq> 0" "CURVE_Gy \<noteq> 0" "CURVE_P - y \<noteq> 0"
    using CURVE_G_range assms by simp_all
  have "JacobianPoint_add (fromAffine (new_Point CURVE_Gx CURVE_Gy))
      (fromAffine (Point_negate (new_Point CURVE_Gx y))) = JacobianPoint_ZERO"
    unfolding JacobianPoint_add_def fromAffine_def Point_negate_def new_Point_def Let_def
    using 2 r by (simp add: pow_two 1 ny)
  then show ?thesis
    by (simp add: Point_subtract_def Point_add_def toAffine_ZERO)
qed

text \<open>
  Claim C3 says that \<^verbatim>\<open>schnorrVerify\<close> returns \<^verbatim>\<open>false\<close> when \<open>R = s G - e P\<close> is the
  identity. With a hash function that makes the challenge \<open>e = 1\<close>, the signature
  \<open>(1, 1)\<close> and the public key \<open>x(G)\<close>, the point is \<open>G - G\<close> and the code raises from
  \<^verbatim>\<open>invert(0)\<close> in \<^verbatim>\<open>toAffine\<close>; the test of the code compares \<open>R\<close> with the base point,
  not with the identity.
\<close>

theorem schnorrVerify_raises_at_identity:
  "isl (schnorrVerify (\<lambda>message. replicate 31 0 @ [1])
         (SchnorrObj \<lparr>schnorr_r = 1, schnorr_s = 1\<rparr>) (HexBytes [])
         (HexBytes [0x79, 0xbe, 0x66, 0x7e, 0xf9, 0xdc, 0xbb, 0xac, 0x55, 0xa0, 0x62, 0x95,
                    0xce, 0x87, 0x0b, 0x07, 0x02, 0x9b, 0xfc, 0xdb, 0x2d, 0xce, 0x28, 0xd9,
                    0x59, 0xf2, 0x81, 0x5b, 0x16, 0xf8, 0x17, 0x98]))"
proof -
  have sha: "(\<lambda>message. replicate 31 0 @ [1]) = constSha"
    by (simp add: constSha_def oneBytes_def fun_eq_iff)
  have "isl (schnorrVerify constSha (SchnorrObj \<lparr>schnorr_r = 1, schnorr_s = 1\<rparr>) (HexBytes [])
         (HexBytes GxBytes))"
  proof (cases "normalizePublicKey (PubHex (HexBytes GxBytes))")
    case (Inl e)
    then show ?thesis by (simp add: schnorrVerify_def)
  next
    case pk: (Inr P)
    from publicKey_Gx [OF pk] obtain y
      where P: "P = new_Point CURVE_Gx y" and y: "0 < y" "y < CURVE_P" "even y"
      by blast
    have nP: "normalized (fromAffine P)"
      using y CURVE_G_range by (simp add: P normalized_def fromAffine_def new_Point_def)
    show ?thesis
    proof (cases "createChallenge constSha 1 P []")
      case (Inl e)
      then show ?thesis by (simp add: schnorrVerify_def pk)
    next
      case ch: (Inr e)
      have e: "e = 1" using createChallenge_const [OF ch] .
      show ?thesis
      proof (cases "fromPrivateKey (PrivBigint 1)")
        case (Inl e)
        then show ?thesis by (simp add: schnorrVerify_def pk ch)
      next
        case sG: (Inr sG)
        have sGv: "sG = new_Point CURVE_Gx CURVE_Gy" using fromPrivateKey_one [OF sG] .
        show ?thesis
        proof (cases "Point_multiply P 1")
          case (Inl e)
          then show ?thesis by (simp add: schnorrVerify_def pk ch sG e)
        next
          case eP: (Inr eP)
          have "eP = new_Point CURVE_Gx y"
            using Point_multiply_one [OF nP eP] by (simp add: P new_Point_def)
          then show ?thesis
            using subtract_same_x [OF y]
            by (simp add: schnorrVerify_def pk ch sG e eP sGv)
        qed
      qed
    qed
  qed
  then show ?thesis by (simp only: sha GxBytes_def)
qed

text \<open>At that input the result is neither \<^verbatim>\<open>false\<close> nor \<^verbatim>\<open>true\<close>.\<close>

theorem schnorrVerify_raises_at_identity_witness:
  "schnorrVerify (\<lambda>message. replicate 31 0 @ [1])
         (SchnorrObj \<lparr>schnorr_r = 1, schnorr_s = 1\<rparr>) (HexBytes [])
         (HexBytes [0x79, 0xbe, 0x66, 0x7e, 0xf9, 0xdc, 0xbb, 0xac, 0x55, 0xa0, 0x62, 0x95,
                    0xce, 0x87, 0x0b, 0x07, 0x02, 0x9b, 0xfc, 0xdb, 0x2d, 0xce, 0x28, 0xd9,
                    0x59, 0xf2, 0x81, 0x5b, 0x16, 0xf8, 0x17, 0x98]) \<noteq> Inr False"
  using schnorrVerify_raises_at_identity by (auto simp only: sum.disc)

subsection \<open>Recovery of the public key: which inputs raise\<close>

lemma hexDigitVal_zero: "hexDigitVal CHR ''0'' = Some 0"
  by (simp add: hexDigitVal_def)

lemma hexValue_replicate_zero: "hexValue (replicate k CHR ''0'' @ s) = hexValue s"
  by (induction k) (simp_all add: hexValue_Cons hexDigitVal_zero)

lemma zero_lowerHex: "CHR ''0'' \<in> hexDigitChar ` {..<16}"
  using hexDigitChar_mem [of 0] by (simp add: hexDigitChar_def)

lemma lowerHex_replicate_zero: "lowerHex (replicate k CHR ''0'')"
  by (induction k) (simp_all add: zero_lowerHex)

lemma numTo32bStr_props:
  assumes "0 \<le> r" and "r < 2 ^ 256"
  shows "\<exists>str. numTo32bStr r = Inr str \<and> lowerHex str \<and> length str = 64 \<and> int (hexValue str) = r"
proof -
  define t where "t = toString16_nat (nat r)"
  have "nat r < 16 ^ 64" using assms by (simp add: nat_less_iff)
  then have len: "length t \<le> 64" unfolding t_def by (intro toString16_nat_length) simp_all
  have "numTo32bStr r = Inr (padStart 64 CHR ''0'' t)"
    using assms by (simp add: numTo32bStr_def POW_2_256_eq toString16_def t_def)
  moreover have "lowerHex (padStart 64 CHR ''0'' t)"
    by (simp add: padStart_def lowerHex_replicate_zero t_def toString16_nat_lowerHex)
  moreover have "length (padStart 64 CHR ''0'' t) = 64"
    using len by (simp add: padStart_def)
  moreover have "int (hexValue (padStart 64 CHR ''0'' t)) = r"
    using assms(1) by (simp add: padStart_def hexValue_replicate_zero t_def toString16_nat_value)
  ultimately show ?thesis by blast
qed

lemma candidate_bytes:
  assumes "lowerHex str" and "length str = 64" and "d = 2 \<or> d = 3"
  shows "\<exists>b0 rest. hexToBytes (''0'' @ toString16 d @ str) = Inr (b0 # rest) \<and> (b0 = 2 \<or> b0 = 3)
           \<and> length rest = 32 \<and> bigEndian rest = int (hexValue str)"
proof -
  have t: "toString16 2 = [hexDigitChar 2]" "toString16 3 = [hexDigitChar 3]"
    by (simp_all add: toString16_def toString16_nat.simps [of 2] toString16_nat.simps [of 3])
  define c where "c = hexDigitChar (nat d)"
  have c: "toString16 d = [c]" "c \<in> hexDigitChar ` {..<16}" "the (hexDigitVal c) = nat d"
    using assms(3) t by (auto simp add: c_def hexDigitVal_hexDigitChar)
  have s: "''0'' @ toString16 d @ str = CHR ''0'' # c # str" by (simp add: c)
  have "lowerHex (CHR ''0'' # c # str)" using assms(1) c(2) by (simp add: zero_lowerHex)
  moreover have "even (length (CHR ''0'' # c # str))" using assms(2) by simp
  ultimately obtain bs where bs: "hexToBytes (CHR ''0'' # c # str) = Inr bs"
      "bytesToHex bs = CHR ''0'' # c # str"
    using hexToBytes_lowerHex by blast
  from bs(2) have "2 * length bs = 66"
    using length_bytesToHex [of bs] assms(2) by simp
  then obtain b0 rest where r: "bs = b0 # rest" "length rest = 32"
    by (cases bs) auto
  from bytesToHex_Cons_digits(3) [OF bs(2) [unfolded r(1)]] have h: "bytesToHex rest = str" .
  from byte_from_digits [OF bs(2) [unfolded r(1)]] have "unat b0 = nat d"
    by (simp add: hexDigitVal_zero c(3))
  moreover have "b0 = of_nat (unat b0)" by simp
  ultimately have "b0 = of_nat (nat d)" by simp
  then have b0: "b0 = 2 \<or> b0 = 3" using assms(3) by auto
  have "bigEndian rest = int (hexValue str)"
    using hexValue_bytesToHex [of rest] h by simp
  with bs(1) r b0 show ?thesis unfolding s by blast
qed

lemma weistrass_eq: "weistrass x = (x ^ 3 + 7) mod CURVE_P"
proof -
  have "weistrass x = (x * x mod CURVE_P * x mod CURVE_P + 7) mod CURVE_P"
    using CURVE_P_pos by (simp add: weistrass_def Let_def mod_js_pos CURVE_a_def CURVE_b_def)
  also have "\<dots> = (x * x * x mod CURVE_P + 7) mod CURVE_P"
    by (simp only: mod_mult_left_eq)
  also have "\<dots> = (x * x * x + 7) mod CURVE_P"
    by (simp only: mod_add_left_eq)
  finally show ?thesis by (simp add: power3_eq_cube)
qed

lemma weistrass_range: "0 \<le> weistrass x" "weistrass x < CURVE_P"
  using CURVE_P_pos by (simp_all add: weistrass_eq)

lemma modP_neg_square: "modP (- y) * modP (- y) mod CURVE_P = y * y mod CURVE_P"
proof -
  have "modP (- y) * modP (- y) mod CURVE_P = ((- y) mod CURVE_P) * ((- y) mod CURVE_P) mod CURVE_P"
    using CURVE_P_pos by (simp add: mod_js_pos)
  also have "\<dots> = ((- y) * (- y)) mod CURVE_P" by (simp only: mod_mult_eq)
  finally show ?thesis by simp
qed

lemma sqrtMod_square:
  assumes "0 \<le> c"
  shows "sqrtMod c * sqrtMod c mod CURVE_P = c ^ nat ((CURVE_P + 1) div 2) mod CURVE_P"
proof -
  have e: "nat ((CURVE_P + 1) div 2) = nat ((CURVE_P + 1) div 4) + nat ((CURVE_P + 1) div 4)"
    by (simp add: CURVE_P_val)
  show ?thesis
    unfolding sqrtMod_eq_power [OF assms] e power_add by (simp only: mod_mult_eq)
qed

lemma sqrtMod_zero: "sqrtMod 0 = 0"
  using CURVE_P_pos by (simp add: sqrtMod_eq_power sqrtMod_exponent)

text \<open>What a candidate point that passes the checks of \<^verbatim>\<open>fromCompressedHex\<close> satisfies.\<close>

lemma fromCompressedHex_candidate:
  assumes "length rest = 32" and "0 < bigEndian rest" and "bigEndian rest < CURVE_P"
    and "fromCompressedHex (b0 # rest) = Inr Q"
  shows "onCurveX (bigEndian rest) \<and> \<not> noSquareRoot (bigEndian rest)"
proof -
  define r where "r = bigEndian rest"
  define c where "c = weistrass r"
  define y0 where "y0 = sqrtMod c"
  have ne: "rest \<noteq> []" using assms(1) by auto
  have x: "bytesToNumber rest = Inr r" using ne by (simp add: bytesToNumber_eq r_def)
  have v: "isValidFieldElement r" using assms(2,3) by (simp add: isValidFieldElement_def r_def)
  define y where "y = (if (b0 AND 1 = 1) \<noteq> (y0 AND 1 = 1) then modP (- y0) else y0)"
  have y: "y = y0 \<or> y = modP (- y0)" by (simp add: y_def)
  have eq: "fromCompressedHex (b0 # rest) = bindE (assertValidity (new_Point r y)) (\<lambda>_. Inr (new_Point r y))"
    using assms(1) v
    by (simp add: fromCompressedHex_def x Let_def y0_def c_def y_def)
  from assms(4) have ok: "assertValidity (new_Point r y) = Inr ()"
    unfolding eq by (cases "assertValidity (new_Point r y)") simp_all
  then have range: "0 < y" "y < CURVE_P" and curve: "modP (modP (y * y) - c) = 0"
    by (auto simp add: assertValidity_def new_Point_def isValidFieldElement_def Let_def c_def
        split: if_splits)
  have c: "0 \<le> c" "c < CURVE_P" unfolding c_def by (rule weistrass_range)+
  have "(y * y mod CURVE_P - c) mod CURVE_P = 0"
    using curve CURVE_P_pos by (simp add: mod_js_pos)
  then have "CURVE_P dvd y * y mod CURVE_P - c" by (rule mod_0_imp_dvd)
  then have "(y * y mod CURVE_P) mod CURVE_P = c mod CURVE_P"
    by (simp only: mod_eq_dvd_iff)
  then have sq: "y * y mod CURVE_P = c" using c by simp
  have on: "onCurveX r"
    unfolding onCurveX_def using range sq by (auto simp add: c_def weistrass_eq)
  have "y * y mod CURVE_P = y0 * y0 mod CURVE_P"
    using y modP_neg_square [of y0] by auto
  then have pw: "c ^ nat ((CURVE_P + 1) div 2) mod CURVE_P = c"
    using sq sqrtMod_square [OF c(1)] by (simp add: y0_def)
  have "c \<noteq> 0"
  proof
    assume "c = 0"
    then have "y0 = 0" by (simp add: y0_def sqrtMod_zero)
    then have "y = 0" using y CURVE_P_pos by (auto simp add: mod_js_pos)
    then show False using range by simp
  qed
  then have "\<not> noSquareRoot r"
    using pw by (simp add: noSquareRoot_def Let_def c_def weistrass_eq)
  with on show ?thesis by (simp add: r_def)
qed

lemma CURVE_n_less_P: "CURVE_n < CURVE_P"
  by (simp add: CURVE_n_val CURVE_P_val)

lemma candidate_invalid_raises:
  assumes "0 < r" and "r < CURVE_n" and "recovery = 0 \<or> recovery = 1"
    and "\<not> onCurveX r \<or> noSquareRoot r"
  shows "isl (bindE (numTo32bStr r) (\<lambda>rStr.
           Point_fromHex (HexStr (''0'' @ toString16 (2 + (recovery AND 1)) @ rStr))))"
proof -
  have rP: "r < CURVE_P" using assms(2) CURVE_n_less_P by simp
  then have "r < 2 ^ 256" by (simp add: CURVE_P_val)
  with assms(1) obtain str where str: "numTo32bStr r = Inr str" "lowerHex str" "length str = 64"
      "int (hexValue str) = r"
    using numTo32bStr_props [of r] by auto
  have d: "2 + (recovery AND 1) = 2 \<or> 2 + (recovery AND 1) = 3"
    using assms(3) by auto
  from candidate_bytes [OF str(2,3) d] obtain b0 rest
    where b: "hexToBytes (''0'' @ toString16 (2 + (recovery AND 1)) @ str) = Inr (b0 # rest)"
      "b0 = 2 \<or> b0 = 3" "length rest = 32" "bigEndian rest = r"
    using str(4) by auto
  have p: "Point_fromHex (HexStr (''0'' @ toString16 (2 + (recovery AND 1)) @ str))
      = fromCompressedHex (b0 # rest)"
    using b(1,2,3) by (auto simp add: Point_fromHex_def)
  have "isl (fromCompressedHex (b0 # rest))"
  proof (cases "fromCompressedHex (b0 # rest)")
    case (Inl e)
    then show ?thesis by simp
  next
    case (Inr Q)
    from fromCompressedHex_candidate [OF b(3) _ _ Inr] assms(1,4) rP b(4) show ?thesis
      by auto
  qed
  then show ?thesis unfolding str(1) bindE_Inr p .
qed

text \<open>Signatures: an object, and bytes read as DER or as the compact pair.\<close>

lemma normalizeSignature_SigObj:
  "normalizeSignature (SigObj sg) =
     (if \<not> (0 < sig_r sg \<and> sig_r sg < CURVE_n) then Inl (Error ''Invalid Signature: r must be 0 < r < n'')
      else if \<not> (0 < sig_s sg \<and> sig_s sg < CURVE_n) then Inl (Error ''Invalid Signature: s must be 0 < s < n'')
      else Inr sg)"
  by (simp add: normalizeSignature_def Signature_assertValidity_def isWithinCurveOrder_def)

lemma new_Signature_eq:
  "new_Signature r s =
     (if \<not> (0 < r \<and> r < CURVE_n) then Inl (Error ''Invalid Signature: r must be 0 < r < n'')
      else if \<not> (0 < s \<and> s < CURVE_n) then Inl (Error ''Invalid Signature: s must be 0 < s < n'')
      else Inr \<lparr>sig_r = r, sig_s = s\<rparr>)"
  by (simp add: new_Signature_def Signature_assertValidity_def isWithinCurveOrder_def Let_def)

lemma bytesToHex_append: "bytesToHex (a @ b) = bytesToHex a @ bytesToHex b"
  by (simp add: bytesToHex_def)

lemma take_bytesToHex: "take (2 * k) (bytesToHex b) = bytesToHex (take k b)"
proof -
  have "bytesToHex b = bytesToHex (take k b) @ bytesToHex (drop k b)"
    by (simp add: bytesToHex_append [symmetric])
  moreover have "length (bytesToHex (take k b)) = 2 * min (length b) k" by simp
  ultimately show ?thesis by (cases "k \<le> length b") (simp_all add: min_def)
qed

lemma drop_bytesToHex: "drop (2 * k) (bytesToHex b) = bytesToHex (drop k b)"
proof -
  have "bytesToHex b = bytesToHex (take k b) @ bytesToHex (drop k b)"
    by (simp add: bytesToHex_append [symmetric])
  moreover have "length (bytesToHex (take k b)) = 2 * min (length b) k" by simp
  ultimately show ?thesis by (cases "k \<le> length b") (simp_all add: min_def)
qed

lemma Signature_fromCompact_bytes:
  "Signature_fromCompact (HexBytes b) =
     (if length b \<noteq> 64 then Inl (Error ''Signature.fromCompact: Expected 64-byte hex'')
      else new_Signature (bigEndian (take 32 b)) (bigEndian (drop 32 b)))"
proof (cases "length b = 64")
  case False
  then show ?thesis by (simp add: Signature_fromCompact_def)
next
  case True
  have 1: "take 64 (bytesToHex b) = bytesToHex (take 32 b)"
    using take_bytesToHex [of 32 b] by simp
  have 2: "take 64 (drop 64 (bytesToHex b)) = bytesToHex (drop 32 b)"
    using drop_bytesToHex [of 32 b] True by simp
  have ne: "take 32 b \<noteq> []" "drop 32 b \<noteq> []" using True by auto
  have 3: "hexToNumber (bytesToHex (take 32 b)) = Inr (bigEndian (take 32 b))"
    using bytesToNumber_eq [OF ne(1)] by (simp only: bytesToNumber_def)
  have 4: "hexToNumber (bytesToHex (drop 32 b)) = Inr (bigEndian (drop 32 b))"
    using bytesToNumber_eq [OF ne(2)] by (simp only: bytesToNumber_def)
  show ?thesis using True by (simp add: Signature_fromCompact_def 1 2 3 4)
qed

lemma Signature_fromCompact_invalid:
  "\<not> compactInRange b \<Longrightarrow> isl (Signature_fromCompact (HexBytes b))"
  by (auto simp add: Signature_fromCompact_bytes new_Signature_eq compactInRange_def)

lemma normalizeSignature_bytes_not_DER:
  assumes "length b < 2 \<or> b ! 0 \<noteq> 0x30 \<or> unat (b ! 1) \<noteq> length b - 2"
    and "\<not> compactInRange b"
  shows "isl (normalizeSignature (SigHex (HexBytes b)))"
proof -
  have "isl (parseDERSignature b)"
    using assms(1) parseDERSignature_rejects(1,2) [of b] by blast
  then have "isl (Signature_fromDER (HexBytes b))"
    by (cases "parseDERSignature b") (simp_all add: Signature_fromDER_def)
  then show ?thesis
    using Signature_fromCompact_invalid [OF assms(2)]
    by (cases "Signature_fromDER (HexBytes b)") (simp_all add: normalizeSignature_def)
qed

lemma normalizeSignature_DER_out_of_range:
  assumes "b = [0x30, L, 0x02, rl] @ R @ [0x02, sl] @ S"
    and "derMinimal R" and "derMinimal S"
    and "unat L = length R + length S + 4" and "unat rl = length R" and "unat sl = length S"
    and "\<not> (bigEndian R < CURVE_n \<and> bigEndian S < CURVE_n)"
    and "\<not> compactInRange b"
  shows "isl (normalizeSignature (SigHex (HexBytes b)))"
proof -
  have "parseDERSignature b = Inr (bigEndian R, bigEndian S)"
    unfolding assms(1) using assms(2-6) by (rule parseDERSignature_ok)
  then have "isl (Signature_fromDER (HexBytes b))"
    using assms(7) by (auto simp add: Signature_fromDER_def new_Signature_eq)
  then show ?thesis
    using Signature_fromCompact_invalid [OF assms(8)]
    by (cases "Signature_fromDER (HexBytes b)") (simp_all add: normalizeSignature_def)
qed

lemma truncateHash_Nil: "isl (truncateHash [])"
  by (simp add: truncateHash_def Let_def bytesToNumber_Nil)

lemma truncateHash_bytes:
  assumes "b \<noteq> []"
  shows "truncateHash b =
     Inr (let h = (if 32 < length b then drop_bit (8 * length b - 256) (bigEndian b) else bigEndian b)
          in if CURVE_n \<le> h then h - CURVE_n else h)"
proof -
  have "int (length b) * 8 - 256 > 0 \<longleftrightarrow> 32 < length b" by auto
  moreover have "nat (int (length b) * 8 - 256) = 8 * length b - 256" by auto
  ultimately show ?thesis
    using assms by (simp add: truncateHash_def Let_def bytesToNumber_eq)
qed

lemma normalizeSignature_range:
  assumes "normalizeSignature signature = Inr sg"
  shows "0 < sig_r sg \<and> sig_r sg < CURVE_n \<and> 0 < sig_s sg \<and> sig_s sg < CURVE_n"
proof -
  have n: "new_Signature r s = Inr g \<Longrightarrow>
      0 < sig_r g \<and> sig_r g < CURVE_n \<and> 0 < sig_s g \<and> sig_s g < CURVE_n" for r s g
    by (auto simp add: new_Signature_eq split: if_splits)
  have d: "Signature_fromDER hex = Inr g \<Longrightarrow>
      0 < sig_r g \<and> sig_r g < CURVE_n \<and> 0 < sig_s g \<and> sig_s g < CURVE_n" for hex g
    unfolding Signature_fromDER_def
    by (auto simp add: bindE_def split: sum.splits Hex.splits prod.splits dest: n)
  have c: "Signature_fromCompact hex = Inr g \<Longrightarrow>
      0 < sig_r g \<and> sig_r g < CURVE_n \<and> 0 < sig_s g \<and> sig_s g < CURVE_n" for hex g
    unfolding Signature_fromCompact_def Let_def
    by (auto simp add: bindE_def split: sum.splits if_splits dest: n)
  show ?thesis
  proof (cases signature)
    case (SigObj g)
    with assms show ?thesis by (auto simp add: normalizeSignature_SigObj split: if_splits)
  next
    case (SigHex hex)
    with assms show ?thesis
      by (auto simp add: normalizeSignature_def split: sum.splits dest: d c)
  qed
qed

lemma recoverPublicKey_defined: "recoverPublicKey msgHash signature recovery \<noteq> Inr None"
  by (auto simp add: recoverPublicKey_def bindE_def split: sum.splits)

lemma fromSignature_raises:
  assumes "(recovery \<noteq> 0 \<and> recovery \<noteq> 1)
      \<or> (\<exists>b. ensureBytes msgHash = Inr b \<and> (b = [] \<or> truncateHash b = Inr 0))
      \<or> isl (normalizeSignature signature)
      \<or> (\<exists>sg. normalizeSignature signature = Inr sg \<and>
            (\<not> onCurveX (sig_r sg) \<or> noSquareRoot (sig_r sg)))"
  shows "isl (fromSignature msgHash signature recovery)"
proof (cases "ensureBytes msgHash")
  case (Inl e)
  then show ?thesis by (simp add: fromSignature_def)
next
  case b: (Inr bytes)
  show ?thesis
  proof (cases "truncateHash bytes")
    case (Inl e)
    with b show ?thesis by (simp add: fromSignature_def)
  next
    case h: (Inr h)
    then have ne: "bytes \<noteq> []" using truncateHash_Nil by auto
    show ?thesis
    proof (cases "normalizeSignature signature")
      case (Inl e)
      with b h show ?thesis by (simp add: fromSignature_def)
    next
      case sg: (Inr sg)
      show ?thesis
      proof (cases "(recovery \<noteq> 0 \<and> recovery \<noteq> 1) \<or> h = 0")
        case True
        then show ?thesis by (auto simp add: fromSignature_def b h sg Let_def)
      next
        case False
        with assms b h sg ne have c: "\<not> onCurveX (sig_r sg) \<or> noSquareRoot (sig_r sg)"
          by auto
        from normalizeSignature_range [OF sg]
        have r: "0 < sig_r sg" "sig_r sg < CURVE_n" by simp_all
        from False have rec: "recovery = 0 \<or> recovery = 1" by simp
        have "isl (bindE (numTo32bStr (sig_r sg)) (\<lambda>rStr.
           Point_fromHex (HexStr (''0'' @ toString16 (2 + (recovery AND 1)) @ rStr))))"
          using r rec c by (rule candidate_invalid_raises)
        then show ?thesis
          using False
          by (cases "numTo32bStr (sig_r sg)")
            (auto simp add: fromSignature_def b h sg Let_def isl_bindE)
      qed
    qed
  qed
qed

lemma candidate_r_val:
  "CURVE_P - 2 * CURVE_beta = 4602937940656409685400179041082242364498080236264115595900560044423621507155"
  by (simp add: CURVE_P_val CURVE_beta_def)

lemma candidate_r_cube:
  "((CURVE_P - 2 * CURVE_beta) ^ 3 + 7) mod CURVE_P = 115792089237316195423570985008687907853269984665640564039457584007908834671662"
proof (rule mod_certificate [where q = 842221780911042956676920602840083839998903874282185606321399229273677848248808426625349611735453363374816977001017495130592596187075678251236430078940])
  show "(CURVE_P - 2 * CURVE_beta) ^ 3 + 7 = 842221780911042956676920602840083839998903874282185606321399229273677848248808426625349611735453363374816977001017495130592596187075678251236430078940 * CURVE_P + 115792089237316195423570985008687907853269984665640564039457584007908834671662"
    unfolding candidate_r_val unfolding power3_eq_cube CURVE_P_val by (simp only: numeral_arith)
qed (simp_all add: CURVE_P_val)

lemma minus_one_square:
  "(115792089237316195423570985008687907853269984665640564039457584007908834671662 :: int) ^ 2 mod CURVE_P = 1"
proof (rule mod_certificate [where q = 115792089237316195423570985008687907853269984665640564039457584007908834671661])
  show "(115792089237316195423570985008687907853269984665640564039457584007908834671662 :: int) ^ 2 = 115792089237316195423570985008687907853269984665640564039457584007908834671661 * CURVE_P + 1"
    unfolding power2_eq_square CURVE_P_val by (simp only: numeral_arith)
qed (simp_all add: CURVE_P_val)

lemma half_exponent:
  "nat ((CURVE_P + 1) div 2) = 2 * 28948022309329048855892746252171976963317496166410141009864396001977208667916"
  by (simp add: CURVE_P_val)

lemma noSquareRoot_candidate: "noSquareRoot (CURVE_P - 2 * CURVE_beta)"
proof -
  define c :: int where "c = 115792089237316195423570985008687907853269984665640564039457584007908834671662"
  define k :: nat where "k = 28948022309329048855892746252171976963317496166410141009864396001977208667916"
  have "c ^ nat ((CURVE_P + 1) div 2) mod CURVE_P = (c ^ 2) ^ k mod CURVE_P"
    unfolding half_exponent k_def [symmetric] by (simp only: power_mult)
  also have "\<dots> = (c ^ 2 mod CURVE_P) ^ k mod CURVE_P" by (simp only: power_mod)
  also have "\<dots> = 1" using minus_one_square CURVE_P_gt1 by (simp add: c_def)
  finally have "c ^ nat ((CURVE_P + 1) div 2) mod CURVE_P = 1" .
  moreover have "c \<noteq> 1" "c \<noteq> 0" by (simp_all add: c_def)
  ultimately show ?thesis
    unfolding noSquareRoot_def Let_def candidate_r_cube c_def [symmetric] by simp
qed

lemma not_compactInRange_zero: "\<not> compactInRange (replicate 64 0)"
  by (simp add: compactInRange_def bigEndian_replicate_zero)

lemma parseDERInt_accepted:
  assumes "derAccepted R" and "unat rl = length R"
  shows "parseDERInt ([0x02, rl] @ R @ rest) = Inr (bigEndian R, rest)"
  using assms by (simp add: parseDERInt_def Let_def bytesToNumber_eq derAccepted_def)

lemma parseDERInt_shape:
  assumes "parseDERInt data = Inr (d, left)"
  shows "\<exists>rl R. data = [0x02, rl] @ R @ left \<and> unat rl = length R \<and> derAccepted R \<and> d = bigEndian R"
proof -
  define len where "len = unat (data ! 1)"
  define res where "res = take len (drop 2 data)"
  from assms have l: "2 \<le> length data" and t: "data ! 0 = 0x02"
    by (auto simp add: parseDERInt_def split: if_splits)
  from assms l t have n: "len \<noteq> 0" "length res = len"
    and m: "\<not> (res ! 0 = 0x00 \<and> 1 < length res \<and> res ! 1 \<le> 0x7f)"
    and v: "bytesToNumber res = Inr d" and r: "left = drop (len + 2) data"
    unfolding parseDERInt_def Let_def len_def [symmetric] res_def [symmetric]
    by (auto split: if_splits sum.splits simp add: bindE_def)
  have ne: "res \<noteq> []" using n by auto
  have d: "d = bigEndian res" using v bytesToNumber_eq [OF ne] by simp
  have "data = [data ! 0, data ! 1] @ drop 2 data"
    using l by (cases data; cases "tl data") auto
  also have "drop 2 data = res @ drop len (drop 2 data)"
    unfolding res_def by (simp only: append_take_drop_id)
  also have "drop len (drop 2 data) = left" using r by (simp add: add.commute)
  finally have "data = [0x02, data ! 1] @ res @ left" using t by simp
  moreover have "unat (data ! 1) = length res" using n by (simp add: len_def)
  moreover have "derAccepted res" using ne m by (simp add: derAccepted_def)
  ultimately show ?thesis using d by blast
qed

lemma parseDERSignature_iff: "parseDERSignature b = Inr (r, s) \<longleftrightarrow> derPair b r s"
proof
  assume p: "parseDERSignature b = Inr (r, s)"
  then have l: "2 \<le> length b" and t: "b ! 0 = 0x30" and n: "unat (b ! 1) = length b - 2"
    by (auto simp add: parseDERSignature_def split: if_splits)
  from p l t n obtain sBytes left where 1: "parseDERInt (drop 2 b) = Inr (r, sBytes)"
    and 2: "parseDERInt sBytes = Inr (s, left)" and 3: "left = []"
    unfolding parseDERSignature_def
    by (auto split: if_splits sum.splits prod.splits simp add: bindE_def)
  from parseDERInt_shape [OF 1] obtain rl R where R: "drop 2 b = [0x02, rl] @ R @ sBytes"
    "unat rl = length R" "derAccepted R" "r = bigEndian R" by blast
  from parseDERInt_shape [OF 2] 3 obtain sl S where S: "sBytes = [0x02, sl] @ S"
    "unat sl = length S" "derAccepted S" "s = bigEndian S" by auto
  have "b = [b ! 0, b ! 1] @ drop 2 b"
    using l by (cases b; cases "tl b") auto
  then have b: "b = [0x30, b ! 1, 0x02, rl] @ R @ [0x02, sl] @ S"
    using t R(1) S(1) by simp
  from arg_cong [OF this, of length] have "length b = length R + length S + 6" by simp
  then have "unat (b ! 1) = length R + length S + 4" using n by simp
  with b R S show "derPair b r s" unfolding derPair_def by blast
next
  assume "derPair b r s"
  then obtain L rl R sl S where b: "b = [0x30, L, 0x02, rl] @ R @ [0x02, sl] @ S"
    and l: "unat L = length R + length S + 4" "unat rl = length R" "unat sl = length S"
    and a: "derAccepted R" "derAccepted S" and v: "r = bigEndian R" "s = bigEndian S"
    unfolding derPair_def by blast
  have 1: "parseDERInt ([0x02, rl] @ R @ ([0x02, sl] @ S)) = Inr (bigEndian R, [0x02, sl] @ S)"
    using a(1) l(2) by (rule parseDERInt_accepted)
  have 2: "parseDERInt ([0x02, sl] @ S @ []) = Inr (bigEndian S, [])"
    using a(2) l(3) by (rule parseDERInt_accepted)
  show "parseDERSignature b = Inr (r, s)"
    using 1 2 l(1) by (simp add: parseDERSignature_def b v)
qed

lemma Signature_fromDER_bytes_raises:
  "isl (Signature_fromDER (HexBytes b)) \<longleftrightarrow>
     \<not> (\<exists>r s. derPair b r s \<and> 0 < r \<and> r < CURVE_n \<and> 0 < s \<and> s < CURVE_n)"
proof (cases "parseDERSignature b")
  case (Inl e)
  then have "\<not> derPair b r s" for r s using parseDERSignature_iff [of b r s] by simp
  with Inl show ?thesis by (simp add: Signature_fromDER_def)
next
  case (Inr p)
  obtain r s where p: "p = (r, s)" by (cases p)
  have u: "derPair b r' s' \<longleftrightarrow> r' = r \<and> s' = s" for r' s'
    using parseDERSignature_iff [of b r' s'] Inr p by auto
  show ?thesis
    using Inr p by (auto simp add: Signature_fromDER_def new_Signature_eq u)
qed

lemma normalizeSignature_bytes_raises:
  "isl (normalizeSignature (SigHex (HexBytes b))) \<longleftrightarrow>
     \<not> (\<exists>r s. derPair b r s \<and> 0 < r \<and> r < CURVE_n \<and> 0 < s \<and> s < CURVE_n) \<and> \<not> compactInRange b"
proof -
  have c: "isl (Signature_fromCompact (HexBytes b)) \<longleftrightarrow> \<not> compactInRange b"
    by (auto simp add: Signature_fromCompact_bytes new_Signature_eq compactInRange_def)
  show ?thesis
    unfolding Signature_fromDER_bytes_raises [symmetric] c [symmetric]
    by (cases "Signature_fromDER (HexBytes b)") (simp_all add: normalizeSignature_def)
qed

lemma bytesToHex_inj: "bytesToHex a = bytesToHex b \<Longrightarrow> a = b"
proof (induction a arbitrary: b)
  case Nil
  then show ?case using length_bytesToHex [of b] by (simp add: bytesToHex_Nil)
next
  case (Cons x a)
  from Cons.prems have "length (bytesToHex b) = 2 * Suc (length a)"
    using length_bytesToHex [of "x # a"] by simp
  then obtain y b' where b: "b = y # b'" by (cases b) (auto simp add: bytesToHex_Nil)
  have e: "bytesToHex (x # a) = hexDigitChar (unat y div 16) # hexDigitChar (unat y mod 16) # bytesToHex b'"
    using Cons.prems by (simp add: b bytesToHex_Cons)
  have e': "bytesToHex (y # b') = hexDigitChar (unat y div 16) # hexDigitChar (unat y mod 16) # bytesToHex b'"
    by (simp add: bytesToHex_Cons)
  from byte_from_digits [OF e] byte_from_digits [OF e'] have "unat x = unat y" by simp
  then have "x = y" by (simp add: word_unat_eq_iff)
  moreover from bytesToHex_Cons_digits(3) [OF e] have "bytesToHex a = bytesToHex b'" .
  then have "a = b'" by (rule Cons.IH)
  ultimately show ?case by (simp add: b)
qed

lemma lowerHex_bytesToHex: "lowerHex (bytesToHex b)"
proof (induction b)
  case Nil
  then show ?case by (simp add: bytesToHex_Nil)
next
  case (Cons x b)
  have "unat x < 256" using unsigned_less [of x, where 'a = nat] by simp
  then have "unat x div 16 < 16" by simp
  then show ?case using Cons by (simp add: bytesToHex_Cons)
qed

lemma hexToBytes_bytesToHex: "hexToBytes (bytesToHex b) = Inr b"
proof -
  from hexToBytes_lowerHex [OF lowerHex_bytesToHex, of b]
  obtain bs where "hexToBytes (bytesToHex b) = Inr bs" "bytesToHex bs = bytesToHex b"
    by auto
  then show ?thesis using bytesToHex_inj by auto
qed

lemma normalizeSignature_hex_string:
  "normalizeSignature (SigHex (HexStr (bytesToHex b))) = normalizeSignature (SigHex (HexBytes b))"
proof -
  have "Signature_fromCompact (HexStr (bytesToHex b)) = Signature_fromCompact (HexBytes b)"
    by (simp add: Signature_fromCompact_def)
  moreover have "Signature_fromDER (HexStr (bytesToHex b)) = Signature_fromDER (HexBytes b)"
    by (simp add: Signature_fromDER_def hexToBytes_bytesToHex)
  ultimately show ?thesis
    by (cases "Signature_fromDER (HexBytes b)") (simp_all add: normalizeSignature_def)
qed

lemma truncateHash_zero_iff:
  assumes "b \<noteq> []"
  shows "truncateHash b = Inr 0 \<longleftrightarrow>
     (let h = (if 32 < length b then bigEndian b div 2 ^ (8 * length b - 256) else bigEndian b)
      in h = 0 \<or> h = CURVE_n)"
  using CURVE_n_pos by (auto simp add: truncateHash_bytes [OF assms] Let_def drop_bit_eq_div)


lemma derBytes_zero_one:
  "parseDERSignature [0x30, 0x06, 0x02, 0x01, 0x00, 0x02, 0x01, 0x01] = Inr (0, 1)"
  by (simp add: parseDERSignature_def parseDERInt_def Let_def bytesToNumber_eq bigEndian_Cons)

lemma derBytes_zero_one_invalid:
  "\<not> (\<exists>r s. derPair [0x30, 0x06, 0x02, 0x01, 0x00, 0x02, 0x01, 0x01] r s
         \<and> 0 < r \<and> r < CURVE_n \<and> 0 < s \<and> s < CURVE_n)"
  by (auto simp add: parseDERSignature_iff [symmetric] derBytes_zero_one)

lemma derBytes_zero_one_hex:
  "bytesToHex [0x30, 0x06, 0x02, 0x01, 0x00, 0x02, 0x01, 0x01] = ''3006020100020101''"
  by (simp add: bytesToHex_Cons bytesToHex_Nil hexDigitChar_def)



end
